theory Spec2Isabelle
  imports Complex_Main "HOL-Library.Sublist"
begin

section \<open>JavaScript containers\<close>

text \<open>
  A JavaScript \<open>Map\<close> iterates in insertion order and holds each key once, so it is an
  association list with the oldest entry first. \<open>Map.set\<close> on a key that is present
  replaces the value where the entry stands; on a new key it appends.
\<close>

type_synonym ('k, 'v) js_map = "('k \<times> 'v) list"

definition map_has :: "'k \<Rightarrow> ('k, 'v) js_map \<Rightarrow> bool" where
  "map_has k m = (k \<in> set (map fst m))"

definition map_get :: "'k \<Rightarrow> ('k, 'v) js_map \<Rightarrow> 'v option" where
  "map_get k m = map_of m k"

definition map_delete :: "'k \<Rightarrow> ('k, 'v) js_map \<Rightarrow> ('k, 'v) js_map" where
  "map_delete k m = filter (\<lambda>e. fst e \<noteq> k) m"

definition map_set :: "'k \<Rightarrow> 'v \<Rightarrow> ('k, 'v) js_map \<Rightarrow> ('k, 'v) js_map" where
  "map_set k v m =
     (if map_has k m then map (\<lambda>e. if fst e = k then (k, v) else e) m else m @ [(k, v)])"

section \<open>LRUMap (hooks/useMultisig.ts)\<close>

text \<open>
  \<open>class LRUMap<K, V> extends Map<K, V>\<close> with the private field \<open>maxSize: number\<close>.
  Keys and values are taken without the JavaScript value \<open>undefined\<close> (every instance in
  the hook is keyed by a string and stores strings, numbers, sets or records).
\<close>

record ('k, 'v) LRUMap =
  entries :: "('k, 'v) js_map"
  maxSize :: int

definition LRU_new :: "int \<Rightarrow> ('k, 'v) LRUMap" where
  "LRU_new n = \<lparr>entries = [], maxSize = n\<rparr>"

text \<open>
  The eviction loop of \<open>set\<close>:
  \<^verbatim>\<open>while (this.size > this.maxSize) {
    const oldestKey = this.keys().next().value;
    if (oldestKey !== undefined) { this.delete(oldestKey); } }\<close>
  With an empty map and a negative \<open>maxSize\<close> the body changes nothing and the loop never
  ends: that is the result \<open>None\<close>.
\<close>

function evict_oldest :: "int \<Rightarrow> ('k, 'v) js_map \<Rightarrow> ('k, 'v) js_map option" where
  "evict_oldest mx m =
     (if int (length m) > mx
      then (case m of
              [] \<Rightarrow> None
            | (oldestKey, _) # _ \<Rightarrow> evict_oldest mx (map_delete oldestKey m))
      else Some m)"
  by pat_completeness auto
termination
  by (relation "measure (\<lambda>(mx, m). length m)")
     (auto simp: map_delete_def intro: le_imp_less_Suc length_filter_le)

declare evict_oldest.simps [simp del]

definition LRU_set :: "'k \<Rightarrow> 'v \<Rightarrow> ('k, 'v) LRUMap \<Rightarrow> ('k, 'v) LRUMap option" where
  "LRU_set k v L =
     (let m1 = (if map_has k (entries L) then map_delete k (entries L) else entries L);
          m2 = map_set k v m1
      in map_option (\<lambda>m3. L\<lparr>entries := m3\<rparr>) (evict_oldest (maxSize L) m2))"

definition LRU_get :: "'k \<Rightarrow> ('k, 'v) LRUMap \<Rightarrow> 'v option \<times> ('k, 'v) LRUMap" where
  "LRU_get k L =
     (case map_get k (entries L) of
        None \<Rightarrow> (None, L)
      | Some v \<Rightarrow> (Some v, L\<lparr>entries := map_set k v (map_delete k (entries L))\<rparr>))"

definition LRU_delete :: "'k \<Rightarrow> ('k, 'v) LRUMap \<Rightarrow> ('k, 'v) LRUMap" where
  "LRU_delete k L = L\<lparr>entries := map_delete k (entries L)\<rparr>"

datatype ('k, 'v) lru_op = Get 'k | Set 'k 'v | Delete 'k

fun lru_step :: "('k, 'v) lru_op \<Rightarrow> ('k, 'v) LRUMap \<Rightarrow> ('k, 'v) LRUMap option" where
  "lru_step (Get k) L = Some (snd (LRU_get k L))"
| "lru_step (Set k v) L = LRU_set k v L"
| "lru_step (Delete k) L = Some (LRU_delete k L)"

fun lru_run :: "('k, 'v) lru_op list \<Rightarrow> ('k, 'v) LRUMap \<Rightarrow> ('k, 'v) LRUMap option" where
  "lru_run [] L = Some L"
| "lru_run (x # xs) L = (case lru_step x L of None \<Rightarrow> None | Some L' \<Rightarrow> lru_run xs L')"

text \<open>
  The invariant of every map built by the constructor and the three operations: keys occur
  once and the size is within \<open>maxSize\<close>.
\<close>

definition lru_inv :: "('k, 'v) LRUMap \<Rightarrow> bool" where
  "lru_inv L = (distinct (map fst (entries L)) \<and> int (length (entries L)) \<le> maxSize L)"

abbreviation sets :: "('k \<times> 'v) list \<Rightarrow> ('k, 'v) lru_op list" where
  "sets kvs \<equiv> map (\<lambda>(k, v). Set k v) kvs"

section \<open>Strings\<close>

text \<open>
  \<open>String.prototype.toLowerCase\<close> on the ASCII range, which holds every address and hash
  the application handles (\<open>0x\<close> followed by hexadecimal digits): \<open>A\<close> to \<open>Z\<close> become
  \<open>a\<close> to \<open>z\<close>, every other byte stays.
\<close>

definition lower_char :: "char \<Rightarrow> char" where
  "lower_char c =
     (let n = (of_char c :: nat) in if 65 \<le> n \<and> n \<le> 90 then char_of (n + 32) else c)"

definition toLowerCase :: "string \<Rightarrow> string" where
  "toLowerCase s = map lower_char s"

text \<open>A string is falsy in a condition exactly when it is empty.\<close>

definition truthy :: "string \<Rightarrow> bool" where
  "truthy s = (s \<noteq> [])"

text \<open>A JavaScript \<open>Set\<close>: insertion order, each member once.\<close>

definition set_add :: "'a \<Rightarrow> 'a list \<Rightarrow> 'a list" where
  "set_add x xs = (if x \<in> set xs then xs else xs @ [x])"

definition set_delete :: "'a \<Rightarrow> 'a list \<Rightarrow> 'a list" where
  "set_delete x xs = filter (\<lambda>y. y \<noteq> x) xs"

section \<open>SubscriptionManager (services/indexer/SubscriptionManager.ts)\<close>

text \<open>
  A callback is an opaque function of the consumer, named by a number. The manager only
  tests whether a callback was supplied and hands it on, except for \<open>onEvicted\<close>, which it
  calls: the call returns or throws, and which of the two is part of what the callback is.
  Callbacks do not call back into the manager.
\<close>

datatype callback = Returning nat | Throwing nat

text \<open>
  A call of the manager returns, or is left by the exception of a callback; the manager
  is an object that lives on, in the state the call left it in.
\<close>

datatype 'a completion = Normal 'a | Abrupt 'a

fun state_after :: "'a completion \<Rightarrow> 'a" where
  "state_after (Normal s) = s"
| "state_after (Abrupt s) = s"

record WalletSubscriptionCallbacks =
  onTransactionInsert :: "callback option"
  onTransactionUpdate :: "callback option"
  onDepositInsert :: "callback option"
  onError :: "callback option"
  onEvicted :: "callback option"

text \<open>
  The teardown closure that \<open>subscribeToTransactions\<close> or \<open>subscribeToDeposits\<close> returns
  stands for the channel it closes. What the manager does to the outside is recorded, in
  order, in \<open>effects\<close>: a channel created, a channel torn down (a teardown that throws is
  caught and logged by the manager and changes nothing else), an \<open>onEvicted\<close> call.
\<close>

datatype channel = TransactionsChannel string | DepositsChannel string

datatype effect =
    Subscribed channel
  | TornDown channel
  | EvictedCalled callback string

record SubscriptionManager =
  activeWallets :: "string list"
  unsubscribeFns :: "(string, channel list) js_map"
  evictionCallbacks :: "(string, callback) js_map"
  effects :: "effect list"

definition manager_new :: SubscriptionManager where
  "manager_new = \<lparr>activeWallets = [], unsubscribeFns = [], evictionCallbacks = [], effects = []\<rparr>"

definition deactivateWallet :: "string \<Rightarrow> SubscriptionManager \<Rightarrow> SubscriptionManager" where
  "deactivateWallet walletAddress s =
     (let normalizedAddress = toLowerCase walletAddress in
      case map_get normalizedAddress (unsubscribeFns s) of
        None \<Rightarrow> s
      | Some unsubscribers \<Rightarrow>
          s\<lparr>effects := effects s @ map TornDown unsubscribers,
            unsubscribeFns := map_delete normalizedAddress (unsubscribeFns s),
            evictionCallbacks := map_delete normalizedAddress (evictionCallbacks s),
            activeWallets := set_delete normalizedAddress (activeWallets s)\<rparr>)"

text \<open>
  The eviction branch of \<open>activateWallet\<close>. \<open>this.activeWallets.values().next()\<close> is done
  on an empty set; otherwise its value is the first member, and the branch runs when that
  string is truthy. The call of the eviction callback is not inside a \<open>try\<close>: when the
  callback throws, the exception leaves \<open>activateWallet\<close> before \<open>deactivateWallet\<close> is
  reached.
\<close>

definition evict_if_full :: "int \<Rightarrow> SubscriptionManager \<Rightarrow> SubscriptionManager completion" where
  "evict_if_full MAX_SUBSCRIPTIONS s =
     (if int (length (activeWallets s)) \<ge> MAX_SUBSCRIPTIONS then
        (case activeWallets s of
           [] \<Rightarrow> Normal s
         | evictedWallet # _ \<Rightarrow>
             if truthy evictedWallet then
               (case map_get evictedWallet (evictionCallbacks s) of
                  None \<Rightarrow> Normal (deactivateWallet evictedWallet s)
                | Some evictionCallback \<Rightarrow>
                    let called = s\<lparr>effects := effects s @ [EvictedCalled evictionCallback evictedWallet]\<rparr>
                    in (case evictionCallback of
                          Throwing _ \<Rightarrow> Abrupt called
                        | Returning _ \<Rightarrow> Normal (deactivateWallet evictedWallet called)))
             else Normal s)
      else Normal s)"

text \<open>
  \<open>INDEXER_CONFIG.MAX_SUBSCRIPTIONS\<close> is defined in \<open>config/supabase\<close>, which is not among
  the sources; it is the first parameter (\<open>SETUP.md\<close> configures it as 10).
\<close>

definition activateWallet ::
  "int \<Rightarrow> string \<Rightarrow> WalletSubscriptionCallbacks \<Rightarrow> SubscriptionManager \<Rightarrow>
   SubscriptionManager completion" where
  "activateWallet MAX_SUBSCRIPTIONS walletAddress callbacks s =
     (let normalizedAddress = toLowerCase walletAddress in
      if normalizedAddress \<in> set (activeWallets s) then Normal s
      else
        (case evict_if_full MAX_SUBSCRIPTIONS s of
           Abrupt thrown \<Rightarrow> Abrupt thrown
         | Normal s1 \<Rightarrow>
             let tx = (if onTransactionInsert callbacks \<noteq> None \<or> onTransactionUpdate callbacks \<noteq> None
                       then [TransactionsChannel normalizedAddress] else []);
                 dep = (if onDepositInsert callbacks \<noteq> None
                        then [DepositsChannel normalizedAddress] else []);
                 unsubscribers = tx @ dep
             in Normal
                  (s1\<lparr>effects := effects s1 @ map Subscribed unsubscribers,
                      activeWallets := set_add normalizedAddress (activeWallets s1),
                      unsubscribeFns := map_set normalizedAddress unsubscribers (unsubscribeFns s1),
                      evictionCallbacks :=
                        (case onEvicted callbacks of
                           None \<Rightarrow> evictionCallbacks s1
                         | Some f \<Rightarrow> map_set normalizedAddress f (evictionCallbacks s1))\<rparr>)))"

definition isWalletActive :: "string \<Rightarrow> SubscriptionManager \<Rightarrow> bool" where
  "isWalletActive walletAddress s = (toLowerCase walletAddress \<in> set (activeWallets s))"

definition getActiveWalletCount :: "SubscriptionManager \<Rightarrow> nat" where
  "getActiveWalletCount s = length (activeWallets s)"


definition cleanup :: "SubscriptionManager \<Rightarrow> SubscriptionManager" where
  "cleanup s =
     s\<lparr>effects := effects s @ map TornDown (concat (map snd (unsubscribeFns s))),
       unsubscribeFns := [], evictionCallbacks := [], activeWallets := []\<rparr>"

datatype manager_call =
    Activate string WalletSubscriptionCallbacks
  | Deactivate string
  | Cleanup

fun manager_step :: "int \<Rightarrow> manager_call \<Rightarrow> SubscriptionManager \<Rightarrow> SubscriptionManager" where
  "manager_step mx (Activate w cb) s = state_after (activateWallet mx w cb s)"
| "manager_step mx (Deactivate w) s = deactivateWallet w s"
| "manager_step mx Cleanup s = cleanup s"

definition manager_run :: "int \<Rightarrow> manager_call list \<Rightarrow> SubscriptionManager" where
  "manager_run mx calls = foldl (\<lambda>s c. manager_step mx c s) manager_new calls"




text \<open>Concrete inputs for the examples below.\<close>

definition example_callbacks :: WalletSubscriptionCallbacks where
  "example_callbacks =
     \<lparr>onTransactionInsert = Some (Returning 1), onTransactionUpdate = None,
      onDepositInsert = Some (Returning 2), onError = None, onEvicted = Some (Returning 3)\<rparr>"

definition throwing_callbacks :: WalletSubscriptionCallbacks where
  "throwing_callbacks = example_callbacks\<lparr>onEvicted := Some (Throwing 4)\<rparr>"

definition two_active :: SubscriptionManager where
  "two_active =
     manager_run 2 [Activate ''0xA1'' example_callbacks, Activate ''0xB2'' example_callbacks]"

definition ten_active_first_empty :: SubscriptionManager where
  "ten_active_first_empty =
     manager_run 10
       [Activate '''' example_callbacks, Activate ''0x01'' example_callbacks,
        Activate ''0x02'' example_callbacks, Activate ''0x03'' example_callbacks,
        Activate ''0x04'' example_callbacks, Activate ''0x05'' example_callbacks,
        Activate ''0x06'' example_callbacks, Activate ''0x07'' example_callbacks,
        Activate ''0x08'' example_callbacks, Activate ''0x09'' example_callbacks]"

section \<open>Transaction records (services/utils/TransactionConverter.ts)\<close>

text \<open>
  The rows of the indexer (\<open>types/database\<close>) and the record of the front end (\<open>types\<close>),
  with the fields the converter reads and writes. \<open>_optimistic\<close> is the optional flag of a
  placeholder the front end inserted itself; absent counts as false. The fields \<open>value\<close> of both records are \<open>tx_value\<close> and \<open>value'\<close> here. A time stamp is kept
  as the number of milliseconds \<open>Date.getTime\<close> returns, divided by 1000 as a real number.
\<close>

record IndexerTransaction =
  tx_hash :: string
  to_address :: string
  tx_value :: string
  tx_data :: "string option"
  confirmation_count :: int
  status :: string
  created_at :: string
  submitted_by :: string

record Confirmation =
  owner_address :: string
  is_active :: bool

record IndexerWallet =
  wallet_threshold :: int

record PendingTransaction =
  hash :: string
  to :: string
  value' :: string
  data :: string
  numApprovals :: int
  threshold :: int
  executed :: bool
  cancelled :: bool
  timestamp :: real
  proposer :: string
  approvals :: "(string, bool) js_map"
  optimistic :: bool

text \<open>
  \<open>getAddress\<close> (package \<open>quais\<close>) returns the checksummed address or throws; \<open>getTime\<close>
  stands for \<open>new Date(s).getTime()\<close>. Both are parameters. The converter throws when
  \<open>getAddress\<close> does: the result \<open>None\<close>.
\<close>

fun checksum_all :: "(string \<Rightarrow> string option) \<Rightarrow> string list \<Rightarrow> string list option" where
  "checksum_all getAddress [] = Some []"
| "checksum_all getAddress (a # as) =
     (case getAddress a of
        None \<Rightarrow> None
      | Some c \<Rightarrow> map_option ((#) c) (checksum_all getAddress as))"

definition convertIndexerTransaction ::
  "(string \<Rightarrow> string option) \<Rightarrow> (string \<Rightarrow> real) \<Rightarrow>
   IndexerTransaction \<Rightarrow> int \<Rightarrow> Confirmation list \<Rightarrow> PendingTransaction option" where
  "convertIndexerTransaction getAddress getTime tx walletThreshold confirmations =
     (let activeConfirmations = filter is_active confirmations in
      case checksum_all getAddress (map owner_address activeConfirmations) of
        None \<Rightarrow> None
      | Some owners \<Rightarrow>
         (case getAddress (to_address tx) of
            None \<Rightarrow> None
          | Some to_checksummed \<Rightarrow>
             (case getAddress (submitted_by tx) of
                None \<Rightarrow> None
              | Some proposer_checksummed \<Rightarrow>
                  Some \<lparr>hash = tx_hash tx,
                        to = to_checksummed,
                        value' = tx_value tx,
                        data = (case tx_data tx of None \<Rightarrow> ''0x'' | Some d \<Rightarrow> d),
                        numApprovals = confirmation_count tx,
                        threshold = walletThreshold,
                        executed = (status tx = ''executed''),
                        cancelled = (status tx = ''cancelled''),
                        timestamp = getTime (created_at tx) / 1000,
                        proposer = proposer_checksummed,
                        approvals = foldl (\<lambda>m a. map_set a True m) [] owners,
                        optimistic = False\<rparr>)))"

section \<open>Cache reconciliation (hooks/useMultisig.ts, subscribeToTransactions callbacks)\<close>

definition MAX_CACHE_TRANSACTIONS :: nat where
  "MAX_CACHE_TRANSACTIONS = 500"

text \<open>
  The query cache, as far as the processors use it: the data stored under a key
  \<open>[name, walletAddress]\<close>, \<open>None\<close> while nothing is stored. \<open>setQueryData\<close> passes the
  stored data to the updater and stores what it returns; each updater here replaces
  missing data by the empty list (\<open>(old = []) => ...\<close>).
\<close>

type_synonym query_key = "string \<times> string"
type_synonym query_cache = "query_key \<Rightarrow> PendingTransaction list option"

definition or_empty :: "'a list option \<Rightarrow> 'a list" where
  "or_empty old = (case old of None \<Rightarrow> [] | Some xs \<Rightarrow> xs)"

definition setQueryData ::
  "query_key \<Rightarrow> (PendingTransaction list option \<Rightarrow> PendingTransaction list) \<Rightarrow>
   query_cache \<Rightarrow> query_cache" where
  "setQueryData key updater cache = cache(key \<mapsto> updater (cache key))"

definition slice0 :: "nat \<Rightarrow> 'a list \<Rightarrow> 'a list" where
  "slice0 n xs = take n xs"

text \<open>The three updaters, as written in \<open>onInsert\<close> and \<open>onUpdate\<close>.\<close>

definition insert_updater ::
  "IndexerTransaction \<Rightarrow> PendingTransaction \<Rightarrow> PendingTransaction list option \<Rightarrow> PendingTransaction list" where
  "insert_updater tx converted old =
     (let filtered = filter (\<lambda>t. \<not> optimistic t \<or> hash t \<noteq> tx_hash tx) (or_empty old)
      in slice0 MAX_CACHE_TRANSACTIONS (converted # filtered))"

definition remove_updater ::
  "IndexerTransaction \<Rightarrow> PendingTransaction list option \<Rightarrow> PendingTransaction list" where
  "remove_updater tx old = filter (\<lambda>t. hash t \<noteq> tx_hash tx) (or_empty old)"

definition history_updater ::
  "PendingTransaction \<Rightarrow> PendingTransaction list option \<Rightarrow> PendingTransaction list" where
  "history_updater converted old = slice0 MAX_CACHE_TRANSACTIONS (converted # or_empty old)"

definition replace_updater ::
  "IndexerTransaction \<Rightarrow> PendingTransaction \<Rightarrow> PendingTransaction list option \<Rightarrow> PendingTransaction list" where
  "replace_updater tx converted old =
     map (\<lambda>t. if hash t = tx_hash tx then converted else t) (or_empty old)"

text \<open>
  A processor is an \<open>async\<close> function with two awaited queries. The model takes what the
  queries settle with and the value of the closure's \<open>isActive\<close> flag when each one
  resumes. The result is \<open>Inl ()\<close> when the processor rejects (a query rejects, or the
  converter throws) and \<open>Inr cache\<close> when it fulfils; a rejected processor has written
  nothing.
\<close>

datatype 'a settled = Rejected | Fulfilled 'a

definition onInsert_processor ::
  "(string \<Rightarrow> string option) \<Rightarrow> (string \<Rightarrow> real) \<Rightarrow> string \<Rightarrow> IndexerTransaction \<Rightarrow>
   IndexerWallet option settled \<Rightarrow> bool \<Rightarrow> Confirmation list settled \<Rightarrow> bool \<Rightarrow>
   query_cache \<Rightarrow> unit + query_cache" where
  "onInsert_processor getAddress getTime walletAddress tx walletDetails isActive1
       activeConfirmations isActive2 cache =
     (case walletDetails of
        Rejected \<Rightarrow> Inl ()
      | Fulfilled None \<Rightarrow> Inr cache
      | Fulfilled (Some wallet) \<Rightarrow>
          if \<not> isActive1 then Inr cache
          else (case activeConfirmations of
                  Rejected \<Rightarrow> Inl ()
                | Fulfilled confirmations \<Rightarrow>
                    if \<not> isActive2 then Inr cache
                    else (case convertIndexerTransaction getAddress getTime tx
                                 (wallet_threshold wallet) confirmations of
                            None \<Rightarrow> Inl ()
                          | Some converted \<Rightarrow>
                              Inr (setQueryData (''pendingTransactions'', walletAddress)
                                     (insert_updater tx converted) cache))))"

definition onUpdate_processor ::
  "(string \<Rightarrow> string option) \<Rightarrow> (string \<Rightarrow> real) \<Rightarrow> string \<Rightarrow> IndexerTransaction \<Rightarrow>
   IndexerWallet option settled \<Rightarrow> bool \<Rightarrow> Confirmation list settled \<Rightarrow> bool \<Rightarrow>
   query_cache \<Rightarrow> unit + query_cache" where
  "onUpdate_processor getAddress getTime walletAddress tx walletDetails isActive1
       activeConfirmations isActive2 cache =
     (case walletDetails of
        Rejected \<Rightarrow> Inl ()
      | Fulfilled None \<Rightarrow> Inr cache
      | Fulfilled (Some wallet) \<Rightarrow>
          if \<not> isActive1 then Inr cache
          else (case activeConfirmations of
                  Rejected \<Rightarrow> Inl ()
                | Fulfilled confirmations \<Rightarrow>
                    if \<not> isActive2 then Inr cache
                    else (case convertIndexerTransaction getAddress getTime tx
                                 (wallet_threshold wallet) confirmations of
                            None \<Rightarrow> Inl ()
                          | Some converted \<Rightarrow>
                              if status tx = ''executed'' \<or> status tx = ''cancelled'' then
                                (let cache1 = setQueryData (''pendingTransactions'', walletAddress)
                                                (remove_updater tx) cache;
                                     historyKey = (if status tx = ''executed''
                                                   then ''executedTransactions''
                                                   else ''cancelledTransactions'')
                                 in Inr (setQueryData (historyKey, walletAddress)
                                           (history_updater converted) cache1))
                              else
                                Inr (setQueryData (''pendingTransactions'', walletAddress)
                                       (replace_updater tx converted) cache))))"

text \<open>Concrete inputs for the examples of the merge.\<close>

definition example_tx :: IndexerTransaction where
  "example_tx =
     \<lparr>tx_hash = ''0xh1'', to_address = ''0xto'', tx_value = ''5'', tx_data = None,
      confirmation_count = 1, status = ''executed'', created_at = ''2026-01-01'',
      submitted_by = ''0xp1''\<rparr>"

definition example_converted :: PendingTransaction where
  "example_converted =
     \<lparr>hash = ''0xh1'', to = ''0xto'', value' = ''5'', data = ''0x'', numApprovals = 1,
      threshold = 2, executed = True, cancelled = False, timestamp = 0, proposer = ''0xp1'',
      approvals = [(''0xo1'', True)], optimistic = False\<rparr>"

definition example_placeholder :: PendingTransaction where
  "example_placeholder = example_converted\<lparr>numApprovals := 0, executed := False, optimistic := True\<rparr>"

definition example_other :: PendingTransaction where
  "example_other = example_converted\<lparr>hash := ''0xh2'', executed := False\<rparr>"

definition example_cache :: query_cache where
  "example_cache =
     (\<lambda>k. if k = (''pendingTransactions'', ''0xw'') then Some [example_placeholder, example_other]
          else None)"

section \<open>Reconnecting Stream Client (specification, sections 3 and 4.2)\<close>

text \<open>Modelled from the spec: the reconnection logic of the stream client is the file
  \<open>services/indexer/IndexerSubscriptionService.ts\<close>, which is not among the sources (only
  its callers \<open>SubscriptionManager.ts\<close> and \<open>hooks/useMultisig.ts\<close> are). The states of a
  StreamChannel are those the specification lists: connecting, subscribed, error,
  reconnecting, failed.
\<close>

datatype channel_state = CONNECTING | SUBSCRIBED | ERROR | RECONNECTING | FAILED

text \<open>Modelled from the spec: a StreamChannel holds its state, its attempt counter and its
  current backoff delay (the type of \<open>IndexerSubscriptionService.ts\<close> is missing).
\<close>

record StreamChannel =
  state :: channel_state
  attempts :: nat
  backoff_delay :: nat

text \<open>Modelled from the spec: the constants of the missing \<open>IndexerSubscriptionService.ts\<close>
  that the specification names without giving their values: the base delay, the ceiling
  that caps the delay, and the maximum attempt count.
\<close>

record backoff_config =
  base_delay :: nat
  max_delay :: nat
  max_attempts :: nat

text \<open>Modelled from the spec: what the missing client does to the outside: it schedules a
  retry after a delay, calls \<open>onError\<close> with the terminal flag, or calls \<open>onReconnect\<close>.
\<close>

datatype client_signal = RetryAfter nat | OnError bool | OnReconnect

text \<open>Modelled from the spec: a channel of the missing client starts in the state connecting,
  with no attempt made.
\<close>

definition channel_init :: StreamChannel where
  "channel_init = \<lparr>state = CONNECTING, attempts = 0, backoff_delay = 0\<rparr>"

text \<open>Modelled from the spec: the delay computation of the missing \<open>handleReconnect\<close>,
  \<open>delay = base \<times> 2^attempts\<close>, capped.
\<close>

definition backoff :: "backoff_config \<Rightarrow> nat \<Rightarrow> nat" where
  "backoff c n = min (base_delay c * 2 ^ n) (max_delay c)"

text \<open>Modelled from the spec: the success transition of the missing client. On success the
  channel reaches subscribed and the attempt counter is reset to zero; a success that
  follows a reconnection calls \<open>onReconnect\<close>. The state failed is terminal.
\<close>

definition on_success :: "StreamChannel \<Rightarrow> StreamChannel \<times> client_signal list" where
  "on_success ch =
     (if state ch = FAILED then (ch, [])
      else (ch\<lparr>state := SUBSCRIBED, attempts := 0\<rparr>,
            if state ch = RECONNECTING then [OnReconnect] else []))"

text \<open>Modelled from the spec: the failure transition (error or timeout) of the missing
  client. On failure it computes the delay, increments the attempts and retries after the
  delay, the channel passing through error into reconnecting; once the attempts would
  exceed the maximum attempt count, the channel goes to failed and \<open>onError\<close> is called
  with the terminal flag.
\<close>

definition on_failure :: "backoff_config \<Rightarrow> StreamChannel \<Rightarrow> StreamChannel \<times> client_signal list" where
  "on_failure c ch =
     (if state ch = FAILED then (ch, [])
      else if max_attempts c \<le> attempts ch then (ch\<lparr>state := FAILED\<rparr>, [OnError True])
      else
        let delay = backoff c (attempts ch)
        in (ch\<lparr>state := RECONNECTING, attempts := attempts ch + 1, backoff_delay := delay\<rparr>,
            [RetryAfter delay]))"

text \<open>Modelled from the spec: what the stream reports to the missing client: that the
  subscription succeeded, or that it failed (error or timeout).
\<close>

datatype stream_event = Success | Failure

text \<open>Modelled from the spec: the state machine of the missing client, one transition for
  one report of the stream.
\<close>

fun client_step ::
  "backoff_config \<Rightarrow> stream_event \<Rightarrow> StreamChannel \<Rightarrow> StreamChannel \<times> client_signal list" where
  "client_step c Success ch = on_success ch"
| "client_step c Failure ch = on_failure c ch"

text \<open>Modelled from the spec: the missing client run over a sequence of reports of the
  stream, collecting what it does to the outside.
\<close>

fun client_run ::
  "backoff_config \<Rightarrow> stream_event list \<Rightarrow> StreamChannel \<Rightarrow> StreamChannel \<times> client_signal list" where
  "client_run c [] ch = (ch, [])"
| "client_run c (e # es) ch =
     (let r1 = client_step c e ch; r2 = client_run c es (fst r1)
      in (fst r2, snd r1 @ snd r2))"

text \<open>A configuration for the examples: base 1000, ceiling 10000, five attempts.\<close>

definition example_config :: backoff_config where
  "example_config = \<lparr>base_delay = 1000, max_delay = 10000, max_attempts = 5\<rparr>"

section \<open>The ordered update queue (hooks/useMultisig.ts, queueCacheUpdate)\<close>

text \<open>
  \<^verbatim>\<open>const queueCacheUpdate = (processor) => {
    if (cacheUpdateQueueSizeRef.current >= MAX_QUEUE_SIZE) {
      console.warn('Cache update queue full, dropping update'); return; }
    cacheUpdateQueueSizeRef.current++;
    cacheUpdateQueueRef.current = cacheUpdateQueueRef.current
      .catch(() => {})
      .then(async () => { if (!isActive) return; await processor(); })
      .catch((error) => { console.warn('Cache update failed:', ...); })
      .finally(() => { cacheUpdateQueueSizeRef.current--; }); };\<close>

  Each accepted call creates one link: the promise that \<open>.catch.then.catch.finally\<close> builds
  on the promise the reference held at the call. Links are numbered as they are created.
  The store keeps, for each link, the processor it wraps, the link it was chained to
  (\<open>None\<close> for the promise \<open>Promise.resolve()\<close> the reference starts with, which is settled)
  and its phase:
  \<^item> \<open>Waiting\<close>: the \<open>then\<close> callback has not run;
  \<^item> \<open>Running\<close>: the callback has called \<open>processor()\<close> and awaits its promise;
  \<^item> \<open>Done\<close>: the promise returned by \<open>finally\<close> is settled. It is always fulfilled, since the
    second \<open>catch\<close> handles a rejection of the processor and returns normally.
\<close>

datatype phase = Waiting | Running | Done

datatype queue_event = Started nat | Settled nat bool

record update_queue =
  next_link :: nat
  processor_of :: "nat \<Rightarrow> nat"
  chained_to :: "nat \<Rightarrow> nat option"
  phase_of :: "nat \<Rightarrow> phase"
  cacheUpdateQueueRef :: "nat option"
  cacheUpdateQueueSize :: int
  console_warnings :: "string list"
  queue_trace :: "queue_event list"

definition MAX_QUEUE_SIZE :: int where
  "MAX_QUEUE_SIZE = 50"

definition queue_init :: update_queue where
  "queue_init =
     \<lparr>next_link = 0, processor_of = (\<lambda>i. 0), chained_to = (\<lambda>i. None), phase_of = (\<lambda>i. Waiting),
      cacheUpdateQueueRef = None, cacheUpdateQueueSize = 0, console_warnings = [],
      queue_trace = []\<rparr>"

definition queueCacheUpdate :: "nat \<Rightarrow> update_queue \<Rightarrow> update_queue" where
  "queueCacheUpdate processor q =
     (if cacheUpdateQueueSize q \<ge> MAX_QUEUE_SIZE then
        q\<lparr>console_warnings := console_warnings q @ [''Cache update queue full, dropping update'']\<rparr>
      else
        q\<lparr>cacheUpdateQueueSize := cacheUpdateQueueSize q + 1,
          processor_of := (processor_of q)(next_link q := processor),
          chained_to := (chained_to q)(next_link q := cacheUpdateQueueRef q),
          phase_of := (phase_of q)(next_link q := Waiting),
          cacheUpdateQueueRef := Some (next_link q),
          next_link := Suc (next_link q)\<rparr>)"

text \<open>
  A callback attached to a promise runs only once that promise is settled. So the \<open>then\<close>
  callback of a link can run when the link it is chained to is \<open>Done\<close>. It reads
  \<open>isActive\<close>: when the flag is false it returns at once, and \<open>finally\<close> decrements the size;
  otherwise it starts the processor. When the processor's promise settles, a rejection is
  logged by the second \<open>catch\<close>, and \<open>finally\<close> decrements the size. The trace records the
  start and the settlement of every processor that is run.
\<close>

definition settled :: "update_queue \<Rightarrow> nat option \<Rightarrow> bool" where
  "settled q p = (case p of None \<Rightarrow> True | Some j \<Rightarrow> phase_of q j = Done)"

definition then_callback :: "nat \<Rightarrow> bool \<Rightarrow> update_queue \<Rightarrow> update_queue option" where
  "then_callback i isActive q =
     (if i < next_link q \<and> phase_of q i = Waiting \<and> settled q (chained_to q i) then
        Some (if \<not> isActive then
                q\<lparr>phase_of := (phase_of q)(i := Done),
                  cacheUpdateQueueSize := cacheUpdateQueueSize q - 1\<rparr>
              else
                q\<lparr>phase_of := (phase_of q)(i := Running),
                  queue_trace := queue_trace q @ [Started i]\<rparr>)
      else None)"

definition processor_settles :: "nat \<Rightarrow> bool \<Rightarrow> update_queue \<Rightarrow> update_queue option" where
  "processor_settles i fulfilled q =
     (if i < next_link q \<and> phase_of q i = Running then
        Some (q\<lparr>phase_of := (phase_of q)(i := Done),
                queue_trace := queue_trace q @ [Settled i fulfilled],
                console_warnings :=
                  (if fulfilled then console_warnings q
                   else console_warnings q @ [''Cache update failed:'']),
                cacheUpdateQueueSize := cacheUpdateQueueSize q - 1\<rparr>)
      else None)"

text \<open>
  What can happen to the queue: a call of \<open>queueCacheUpdate\<close>, the \<open>then\<close> callback of a
  link running (with the value it reads from \<open>isActive\<close>), the processor of a link settling
  (fulfilled or rejected). A step that cannot happen in the state gives \<open>None\<close>.
\<close>

datatype queue_action = Enqueue nat | Begin nat bool | Finish nat bool

fun queue_step :: "queue_action \<Rightarrow> update_queue \<Rightarrow> update_queue option" where
  "queue_step (Enqueue p) q = Some (queueCacheUpdate p q)"
| "queue_step (Begin i isActive) q = then_callback i isActive q"
| "queue_step (Finish i fulfilled) q = processor_settles i fulfilled q"

fun queue_run :: "queue_action list \<Rightarrow> update_queue \<Rightarrow> update_queue option" where
  "queue_run [] q = Some q"
| "queue_run (a # as) q = (case queue_step a q of None \<Rightarrow> None | Some q' \<Rightarrow> queue_run as q')"

text \<open>The processors of the calls that were accepted, in the order of the calls.\<close>

fun accepted :: "queue_action list \<Rightarrow> update_queue \<Rightarrow> nat list" where
  "accepted [] q = []"
| "accepted (a # as) q =
     (case queue_step a q of
        None \<Rightarrow> []
      | Some q' \<Rightarrow>
          (case a of
             Enqueue p \<Rightarrow> if cacheUpdateQueueSize q \<ge> MAX_QUEUE_SIZE then [] else [p]
           | _ \<Rightarrow> []) @ accepted as q')"

fun started_links :: "queue_event list \<Rightarrow> nat list" where
  "started_links [] = []"
| "started_links (Started i # es) = i # started_links es"
| "started_links (Settled i b # es) = started_links es"

text \<open>
  A trace in which processors do not overlap: every start is followed at once by the
  settlement of the same link, except a last start, whose processor is still running.
\<close>

fun sequential :: "queue_event list \<Rightarrow> bool" where
  "sequential [] = True"
| "sequential [Started i] = True"
| "sequential (Started i # Settled j b # es) = (i = j \<and> sequential es)"
| "sequential _ = False"

definition running_link :: "queue_event list \<Rightarrow> nat option" where
  "running_link es =
     (if es = [] then None else case last es of Started i \<Rightarrow> Some i | Settled i b \<Rightarrow> None)"

text \<open>
  The invariant, with \<open>k\<close> the first link that is not \<open>Done\<close>: the reference holds the last
  link and every link is chained to the one before it; the links before \<open>k\<close> are \<open>Done\<close>,
  those after it are \<open>Waiting\<close>; the size counts the links from \<open>k\<close> on; the trace is
  sequential, its starts are in the order of the links, and it ends with the start of
  \<open>k\<close> exactly when \<open>k\<close> is \<open>Running\<close>.
\<close>

definition queue_inv :: "nat \<Rightarrow> update_queue \<Rightarrow> bool" where
  "queue_inv k q =
     (k \<le> next_link q
      \<and> cacheUpdateQueueRef q = (if next_link q = 0 then None else Some (next_link q - 1))
      \<and> (\<forall>i < next_link q. chained_to q i = (if i = 0 then None else Some (i - 1)))
      \<and> (\<forall>i < k. phase_of q i = Done)
      \<and> (\<forall>i. k < i \<and> i < next_link q \<longrightarrow> phase_of q i = Waiting)
      \<and> (k < next_link q \<longrightarrow> phase_of q k \<noteq> Done)
      \<and> cacheUpdateQueueSize q = int (next_link q - k)
      \<and> cacheUpdateQueueSize q \<le> MAX_QUEUE_SIZE
      \<and> sequential (queue_trace q)
      \<and> sorted_wrt (<) (started_links (queue_trace q))
      \<and> (\<forall>i \<in> set (started_links (queue_trace q)). i < next_link q \<and> phase_of q i \<noteq> Waiting)
      \<and> running_link (queue_trace q) =
          (if k < next_link q \<and> phase_of q k = Running then Some k else None))"

section \<open>Change detection and notifications (hooks/useMultisig.ts)\<close>

text \<open>
  The module-level trackers, shared by every instance of the hook, and the references of
  one instance. A \<open>Set<string>\<close> is the list of its members in insertion order. A toast is
  a call of \<open>notificationManager.add\<close>, a push a \<open>new Notification\<close>, which the hook
  makes only when the browser permission is granted (the parameter \<open>permission\<close>). A
  notification carries the data its message is built from.
\<close>

definition MAX_TRACKED_WALLETS :: int where
  "MAX_TRACKED_WALLETS = 50"

record trackers =
  lastNotifiedBalances :: "(string, string) LRUMap"
  notifiedExecutedTxs :: "(string, string list) LRUMap"
  notifiedCancelledTxs :: "(string, string list) LRUMap"
  notifiedReadyTxs :: "(string, string list) LRUMap"
  notifiedProposedTxs :: "(string, string list) LRUMap"
  notifiedApprovals :: "(string, (string, string list) js_map) LRUMap"
  lastNotifiedOwners :: "(string, string) LRUMap"
  lastNotifiedThresholds :: "(string, int) LRUMap"
  lastNotifiedModuleStatus :: "(string, (string, bool) js_map) LRUMap"
  activeWalletSubscriptions :: "(string, int) js_map"

definition trackers_init :: trackers where
  "trackers_init =
     \<lparr>lastNotifiedBalances = LRU_new MAX_TRACKED_WALLETS,
      notifiedExecutedTxs = LRU_new MAX_TRACKED_WALLETS,
      notifiedCancelledTxs = LRU_new MAX_TRACKED_WALLETS,
      notifiedReadyTxs = LRU_new MAX_TRACKED_WALLETS,
      notifiedProposedTxs = LRU_new MAX_TRACKED_WALLETS,
      notifiedApprovals = LRU_new MAX_TRACKED_WALLETS,
      lastNotifiedOwners = LRU_new MAX_TRACKED_WALLETS,
      lastNotifiedThresholds = LRU_new MAX_TRACKED_WALLETS,
      lastNotifiedModuleStatus = LRU_new MAX_TRACKED_WALLETS,
      activeWalletSubscriptions = []\<rparr>"

record hook_refs =
  prevBalances :: "(string, string) js_map"
  prevPendingTxs :: "(string, (string, PendingTransaction) js_map) js_map"

definition hook_refs_init :: hook_refs where
  "hook_refs_init = \<lparr>prevBalances = [], prevPendingTxs = []\<rparr>"

datatype notice =
    BalanceIncreased string int int
  | TransactionProposed string
  | TransactionReady string
  | ApprovalAdded string string
  | ApprovalRevoked string string
  | ProposalSucceeded string

datatype ui_event = Toast notice | Push notice

definition notify :: "bool \<Rightarrow> notice \<Rightarrow> ui_event list" where
  "notify permission n = Toast n # (if permission then [Push n] else [])"


subsection \<open>Balance\<close>






definition events_of :: "'e + ('h \<times> 'g \<times> 'v list) \<Rightarrow> 'v list option" where
  "events_of r = (case r of Inl e \<Rightarrow> None | Inr x \<Rightarrow> Some (snd (snd x)))"




fun toasts :: "ui_event list \<Rightarrow> notice list" where
  "toasts [] = []"
| "toasts (Toast n # es) = n # toasts es"
| "toasts (Push n # es) = toasts es"


text \<open>
  What holds of the balances an instance and the trackers keep for a wallet while the
  instance observes balances that are non-empty numerals: a last notified balance is
  never below the previous balance.
\<close>

definition balance_inv :: "(string \<Rightarrow> int option) \<Rightarrow> string \<Rightarrow> hook_refs \<times> trackers \<Rightarrow> bool" where
  "balance_inv BigInt w hg =
     (lru_inv (lastNotifiedBalances (snd hg)) \<and> 1 \<le> maxSize (lastNotifiedBalances (snd hg))
      \<and> (\<forall>prev. map_get w (prevBalances (fst hg)) = Some prev \<longrightarrow>
             truthy prev \<and> BigInt prev \<noteq> None)
      \<and> (\<forall>notified. map_get w (entries (lastNotifiedBalances (snd hg))) = Some notified \<longrightarrow>
             truthy notified
           \<and> (\<exists>X prev p. BigInt notified = Some X \<and> map_get w (prevBalances (fst hg)) = Some prev
                 \<and> BigInt prev = Some p \<and> p \<le> X)))"

subsection \<open>Pending transactions\<close>

text \<open>
  The effect on \<open>pendingTransactions\<close>. \<open>tracker.get(key) ?? new Set()\<close> reads a tracker,
  moving the key to its most-recent end, and takes the empty set when there is no entry.
\<close>

definition get_or_new :: "string \<Rightarrow> (string, 'a list) LRUMap \<Rightarrow> 'a list \<times> (string, 'a list) LRUMap" where
  "get_or_new k M = (case fst (LRU_get k M) of None \<Rightarrow> [] | Some s \<Rightarrow> s, snd (LRU_get k M))"

text \<open>The branch for a transaction that was not in the previous observation.\<close>

definition proposed_branch ::
  "bool \<Rightarrow> string \<Rightarrow> nat \<Rightarrow> PendingTransaction \<Rightarrow> trackers \<Rightarrow> (trackers \<times> ui_event list) option" where
  "proposed_branch permission walletAddress prevSize tx g =
     (let txHashLower = toLowerCase (hash tx);
          got = get_or_new (toLowerCase walletAddress) (notifiedProposedTxs g);
          walletProposedSet = fst got
      in if prevSize > 0 \<and> txHashLower \<notin> set walletProposedSet then
           map_option
             (\<lambda>P. (g\<lparr>notifiedProposedTxs := P\<rparr>, notify permission (TransactionProposed (hash tx))))
             (LRU_set (toLowerCase walletAddress) (set_add txHashLower walletProposedSet) (snd got))
         else Some (g\<lparr>notifiedProposedTxs := snd got\<rparr>, []))"

text \<open>The ready-to-execute check of the branch for a transaction seen before.\<close>

definition ready_branch ::
  "bool \<Rightarrow> string \<Rightarrow> PendingTransaction \<Rightarrow> PendingTransaction \<Rightarrow> trackers \<Rightarrow>
   (trackers \<times> ui_event list) option" where
  "ready_branch permission walletAddress prevTx tx g =
     (let txHashLower = toLowerCase (hash tx);
          wasReady = (numApprovals prevTx \<ge> threshold prevTx);
          isReady = (numApprovals tx \<ge> threshold tx);
          got = get_or_new (toLowerCase walletAddress) (notifiedReadyTxs g);
          walletReadySet = fst got
      in if \<not> wasReady \<and> isReady \<and> txHashLower \<notin> set walletReadySet then
           map_option
             (\<lambda>R. (g\<lparr>notifiedReadyTxs := R\<rparr>, notify permission (TransactionReady (hash tx))))
             (LRU_set (toLowerCase walletAddress) (set_add txHashLower walletReadySet) (snd got))
         else Some (g\<lparr>notifiedReadyTxs := snd got\<rparr>, []))"

text \<open>
  The approval checks of the same branch. \<open>Object.keys(tx.approvals)\<close> lists the keys in
  insertion order, and an address counts as approving when the object has a true value
  under the lower-cased address. The map of a wallet in \<open>notifiedApprovals\<close> is changed in
  place (\<open>walletApprovals.set\<close>) after it was read or stored.
\<close>

definition approvers :: "PendingTransaction \<Rightarrow> string list" where
  "approvers tx =
     filter (\<lambda>addr. map_get (toLowerCase addr) (approvals tx) = Some True) (map fst (approvals tx))"

fun notify_approvers ::
  "bool \<Rightarrow> string \<Rightarrow> string list \<Rightarrow> string list \<Rightarrow> string list \<times> ui_event list" where
  "notify_approvers permission txHash [] notifiedSet = (notifiedSet, [])"
| "notify_approvers permission txHash (approver # rest) notifiedSet =
     (if toLowerCase approver \<notin> set notifiedSet then
        (let r = notify_approvers permission txHash rest (set_add (toLowerCase approver) notifiedSet)
         in (fst r, notify permission (ApprovalAdded approver txHash) @ snd r))
      else notify_approvers permission txHash rest notifiedSet)"

definition approvals_branch ::
  "bool \<Rightarrow> string \<Rightarrow> string \<Rightarrow> PendingTransaction \<Rightarrow> PendingTransaction \<Rightarrow> trackers \<Rightarrow>
   (trackers \<times> ui_event list) option" where
  "approvals_branch permission connectedAddress walletAddress prevTx tx g =
     (if \<not> truthy connectedAddress then Some (g, [])
      else
        let txHashLower = toLowerCase (hash tx);
            prevApprovals = approvers prevTx;
            currentApprovals = approvers tx;
            newApprovers = filter (\<lambda>addr. addr \<notin> set prevApprovals
                                   \<and> toLowerCase addr \<noteq> toLowerCase connectedAddress) currentApprovals;
            revokedApprovers = filter (\<lambda>addr. addr \<notin> set currentApprovals
                                   \<and> toLowerCase addr \<noteq> toLowerCase connectedAddress) prevApprovals;
            revoked = map (\<lambda>revoker. Toast (ApprovalRevoked revoker (hash tx))) revokedApprovers
        in if newApprovers = [] then Some (g, revoked)
           else
             let normalizedWallet = toLowerCase walletAddress;
                 got = LRU_get normalizedWallet (notifiedApprovals g)
             in (case (case fst got of
                         None \<Rightarrow> map_option (Pair []) (LRU_set normalizedWallet [] (snd got))
                       | Some walletApprovals \<Rightarrow> Some (walletApprovals, snd got)) of
                   None \<Rightarrow> None
                 | Some (walletApprovals, A) \<Rightarrow>
                     let notifiedSet = (case map_get txHashLower walletApprovals of
                                          None \<Rightarrow> [] | Some s \<Rightarrow> s);
                         r = notify_approvers permission (hash tx) newApprovers notifiedSet;
                         walletApprovals' = map_set txHashLower (fst r) walletApprovals;
                         A' = A\<lparr>entries := (if map_has normalizedWallet (entries A)
                                             then map_set normalizedWallet walletApprovals' (entries A)
                                             else entries A)\<rparr>
                     in Some (g\<lparr>notifiedApprovals := A'\<rparr>, snd r @ revoked)))"

text \<open>
  The body of \<open>pendingTransactions.forEach\<close>, on the trackers, the map of the current
  transactions and the notifications so far; then the loop and the effect. An absent
  \<open>walletAddress\<close> or \<open>connectedAddress\<close> is the empty string, which is as falsy.
\<close>

type_synonym pending_loop_state =
  "trackers \<times> (string, PendingTransaction) js_map \<times> ui_event list"

definition process_tx ::
  "bool \<Rightarrow> string \<Rightarrow> string \<Rightarrow> (string, PendingTransaction) js_map \<Rightarrow> PendingTransaction \<Rightarrow>
   pending_loop_state \<Rightarrow> pending_loop_state option" where
  "process_tx permission connectedAddress walletAddress prevTxsMap tx st =
     (let g = fst st; currentTxsMap = fst (snd st); evs = snd (snd st);
          txHashLower = toLowerCase (hash tx);
          currentTxsMap' = map_set txHashLower tx currentTxsMap
      in case map_get txHashLower prevTxsMap of
           None \<Rightarrow>
             (case proposed_branch permission walletAddress (length prevTxsMap) tx g of
                None \<Rightarrow> None
              | Some (g', e) \<Rightarrow> Some (g', currentTxsMap', evs @ e))
         | Some prevTx \<Rightarrow>
             (case ready_branch permission walletAddress prevTx tx g of
                None \<Rightarrow> None
              | Some (g1, e1) \<Rightarrow>
                  (case approvals_branch permission connectedAddress walletAddress prevTx tx g1 of
                     None \<Rightarrow> None
                   | Some (g2, e2) \<Rightarrow> Some (g2, currentTxsMap', evs @ e1 @ e2))))"

fun process_all ::
  "bool \<Rightarrow> string \<Rightarrow> string \<Rightarrow> (string, PendingTransaction) js_map \<Rightarrow> PendingTransaction list \<Rightarrow>
   pending_loop_state \<Rightarrow> pending_loop_state option" where
  "process_all permission connectedAddress walletAddress prevTxsMap [] st = Some st"
| "process_all permission connectedAddress walletAddress prevTxsMap (tx # txs) st =
     (case process_tx permission connectedAddress walletAddress prevTxsMap tx st of
        None \<Rightarrow> None
      | Some st' \<Rightarrow> process_all permission connectedAddress walletAddress prevTxsMap txs st')"

definition pending_effect ::
  "bool \<Rightarrow> string \<Rightarrow> string \<Rightarrow> PendingTransaction list option \<Rightarrow> hook_refs \<times> trackers \<Rightarrow>
   (hook_refs \<times> trackers \<times> ui_event list) option" where
  "pending_effect permission connectedAddress walletAddress pendingTransactions hg =
     (let h = fst hg; g = snd hg in
      case pendingTransactions of
        None \<Rightarrow> Some (h, g, [])
      | Some txs \<Rightarrow>
          if \<not> truthy walletAddress then Some (h, g, [])
          else
            let prevTxsMap = (case map_get walletAddress (prevPendingTxs h) of
                                None \<Rightarrow> [] | Some m \<Rightarrow> m)
            in (case process_all permission connectedAddress walletAddress prevTxsMap txs (g, [], []) of
                  None \<Rightarrow> None
                | Some (g', currentTxsMap, evs) \<Rightarrow>
                    Some (h\<lparr>prevPendingTxs := map_set walletAddress currentTxsMap (prevPendingTxs h)\<rparr>,
                          g', evs)))"

text \<open>A run of the effect over successive observations, collecting the notifications.\<close>

fun pending_run ::
  "bool \<Rightarrow> string \<Rightarrow> string \<Rightarrow> PendingTransaction list list \<Rightarrow> hook_refs \<times> trackers \<Rightarrow>
   (hook_refs \<times> trackers \<times> ui_event list) option" where
  "pending_run permission connectedAddress walletAddress [] hg = Some (fst hg, snd hg, [])"
| "pending_run permission connectedAddress walletAddress (txs # rest) hg =
     (case pending_effect permission connectedAddress walletAddress (Some txs) hg of
        None \<Rightarrow> None
      | Some (h1, g1, evs1) \<Rightarrow>
          (case pending_run permission connectedAddress walletAddress rest (h1, g1) of
             None \<Rightarrow> None
           | Some (h2, g2, evs2) \<Rightarrow> Some (h2, g2, evs1 @ evs2)))"

text \<open>
  \<open>onSuccess\<close> of the \<open>proposeTransaction\<close> mutation: the hash of a transaction proposed
  through this hook is recorded as already notified before the success toast is posted. An
  absent \<open>txHash\<close> is the empty string.
\<close>

definition proposeTransaction_onSuccess ::
  "string \<Rightarrow> string \<Rightarrow> trackers \<Rightarrow> (trackers \<times> ui_event list) option" where
  "proposeTransaction_onSuccess txHash walletAddress g =
     (if truthy txHash then
        (let normalizedWallet = toLowerCase walletAddress;
             got = get_or_new normalizedWallet (notifiedProposedTxs g);
             walletProposedSet = fst got
         in map_option
              (\<lambda>P. (g\<lparr>notifiedProposedTxs := P\<rparr>, [Toast (ProposalSucceeded txHash)]))
              (LRU_set normalizedWallet (set_add (toLowerCase txHash) walletProposedSet) (snd got)))
      else Some (g, [Toast (ProposalSucceeded txHash)]))"

text \<open>What the theorems speak about.\<close>

definition tracked_set :: "string \<Rightarrow> (string, 'a list) LRUMap \<Rightarrow> 'a list" where
  "tracked_set walletAddress M =
     (case map_get (toLowerCase walletAddress) (entries M) of None \<Rightarrow> [] | Some s \<Rightarrow> s)"

definition tx_map :: "PendingTransaction list \<Rightarrow> (string, PendingTransaction) js_map" where
  "tx_map txs = foldl (\<lambda>m tx. map_set (toLowerCase (hash tx)) tx m) [] txs"

definition hashes :: "PendingTransaction list \<Rightarrow> string set" where
  "hashes txs = set (map (\<lambda>tx. toLowerCase (hash tx)) txs)"

fun is_proposed_for :: "string \<Rightarrow> notice \<Rightarrow> bool" where
  "is_proposed_for h (TransactionProposed x) = (toLowerCase x = h)"
| "is_proposed_for h _ = False"

fun is_ready_for :: "string \<Rightarrow> notice \<Rightarrow> bool" where
  "is_ready_for h (TransactionReady x) = (toLowerCase x = h)"
| "is_ready_for h _ = False"

definition proposed_count :: "string \<Rightarrow> ui_event list \<Rightarrow> nat" where
  "proposed_count h evs = length (filter (is_proposed_for h) (toasts evs))"

definition ready_count :: "string \<Rightarrow> ui_event list \<Rightarrow> nat" where
  "ready_count h evs = length (filter (is_ready_for h) (toasts evs))"

definition becomes_ready :: "(string, PendingTransaction) js_map \<Rightarrow> PendingTransaction \<Rightarrow> bool" where
  "becomes_ready prevTxsMap tx =
     (case map_get (toLowerCase (hash tx)) prevTxsMap of
        None \<Rightarrow> False
      | Some prevTx \<Rightarrow> numApprovals prevTx < threshold prevTx \<and> threshold tx \<le> numApprovals tx)"

fun crosses :: "(string, PendingTransaction) js_map \<Rightarrow> PendingTransaction list list \<Rightarrow> string \<Rightarrow> bool" where
  "crosses prevTxsMap [] h = False"
| "crosses prevTxsMap (txs # rest) h =
     ((\<exists>tx \<in> set txs. toLowerCase (hash tx) = h \<and> becomes_ready prevTxsMap tx)
      \<or> crosses (tx_map txs) rest h)"

definition trackers_ok :: "trackers \<Rightarrow> bool" where
  "trackers_ok g =
     (lru_inv (notifiedProposedTxs g) \<and> 1 \<le> maxSize (notifiedProposedTxs g)
      \<and> lru_inv (notifiedReadyTxs g) \<and> 1 \<le> maxSize (notifiedReadyTxs g)
      \<and> lru_inv (notifiedApprovals g) \<and> 1 \<le> maxSize (notifiedApprovals g))"

text \<open>Concrete transactions for the examples: \<open>0xT1\<close> with one or two of two approvals.\<close>

definition pending_one_of_two :: PendingTransaction where
  "pending_one_of_two =
     \<lparr>hash = ''0xT1'', to = ''0xto'', value' = ''5'', data = ''0x'', numApprovals = 1,
      threshold = 2, executed = False, cancelled = False, timestamp = 0, proposer = ''0xp1'',
      approvals = [(''0xo1'', True)], optimistic = False\<rparr>"

definition pending_two_of_two :: PendingTransaction where
  "pending_two_of_two = pending_one_of_two\<lparr>numApprovals := 2, approvals := [(''0xo1'', True), (''0xo2'', True)]\<rparr>"

definition pending_second :: PendingTransaction where
  "pending_second = pending_one_of_two\<lparr>hash := ''0xT2''\<rparr>"

definition run_events :: "('h \<times> 'g \<times> 'v list) option \<Rightarrow> 'v list option" where
  "run_events r = map_option (\<lambda>x. snd (snd x)) r"

text \<open>
  The state of an instance that has observed \<open>0xT1\<close> pending, after which the user has
  proposed \<open>0xT2\<close> through the hook.
\<close>

definition own_proposal_state :: "hook_refs \<times> trackers" where
  "own_proposal_state =
     (case pending_effect True ''0xme'' ''0xW'' (Some [pending_one_of_two])
             (hook_refs_init, trackers_init) of
        None \<Rightarrow> (hook_refs_init, trackers_init)
      | Some (h1, g1, evs1) \<Rightarrow>
          (case proposeTransaction_onSuccess ''0xT2'' ''0xW'' g1 of
             None \<Rightarrow> (h1, g1)
           | Some (g2, evs2) \<Rightarrow> (h1, g2)))"

definition ready_observations :: "PendingTransaction list list" where
  "ready_observations =
     [[pending_one_of_two], [pending_two_of_two], [pending_two_of_two], [pending_one_of_two],
      [pending_two_of_two]]"

section \<open>Verified properties\<close>

subsection \<open>LRUMap\<close>



lemma map_delete_head: "k \<notin> set (map fst rest) \<Longrightarrow> map_delete k ((k, v) # rest) = rest"
  by (induction rest) (auto simp: map_delete_def)

lemma evict_oldest_distinct:
  "0 \<le> mx \<Longrightarrow> distinct (map fst m) \<Longrightarrow> evict_oldest mx m = Some (drop (length m - nat mx) m)"
proof (induction mx m rule: evict_oldest.induct)
  case (1 mx m)
  show ?case
  proof (cases "int (length m) > mx")
    case False
    then show ?thesis by (subst evict_oldest.simps) simp
  next
    case True
    with "1.prems" obtain k v rest where m: "m = (k, v) # rest" by (cases m) auto
    from "1.prems" m have del: "map_delete k m = rest" by (simp add: map_delete_head)
    from "1.IH"[OF True m refl] "1.prems" m del
    have ih: "evict_oldest mx rest = Some (drop (length rest - nat mx) rest)" by simp
    from True m have "length m - nat mx = Suc (length rest - nat mx)" by auto
    then have "drop (length m - nat mx) m = drop (length rest - nat mx) rest"
      using m by simp
    moreover have "evict_oldest mx m = evict_oldest mx rest"
      using True m del by (subst evict_oldest.simps) simp
    ultimately show ?thesis using ih by simp
  qed
qed

lemma distinct_map_delete: "distinct (map fst m) \<Longrightarrow> distinct (map fst (map_delete k m))"
  by (simp add: map_delete_def distinct_map_filter)

lemma map_delete_absent: "\<not> map_has k m \<Longrightarrow> map_delete k m = m"
  by (induction m) (auto simp: map_delete_def map_has_def)

lemma map_has_delete: "\<not> map_has k (map_delete k m)"
  by (auto simp: map_delete_def map_has_def)

lemma LRU_set_entries:
  assumes "0 \<le> maxSize L" "distinct (map fst (entries L))"
  shows "LRU_set k v L = Some (L\<lparr>entries := drop (Suc (length (map_delete k (entries L))) - nat (maxSize L)) (map_delete k (entries L) @ [(k, v)])\<rparr>)"
proof -
  let ?d = "map_delete k (entries L)"
  have m1: "(if map_has k (entries L) then ?d else entries L) = ?d"
    by (simp add: map_delete_absent)
  have m2: "map_set k v ?d = ?d @ [(k, v)]"
    by (simp add: map_set_def map_has_delete)
  have dist: "distinct (map fst (?d @ [(k, v)]))"
    using assms(2) map_has_delete[of k "entries L"] by (simp add: distinct_map_delete map_has_def)
  show ?thesis
    unfolding LRU_set_def Let_def m1 m2
    using evict_oldest_distinct[OF assms(1) dist] by simp
qed

lemma length_map_delete_le: "length (map_delete k m) \<le> length m"
  by (simp add: map_delete_def)

lemma LRU_set_inv:
  assumes "lru_inv L"
  shows "\<exists>L'. LRU_set k v L = Some L' \<and> lru_inv L' \<and> maxSize L' = maxSize L"
proof -
  from assms have mx: "0 \<le> maxSize L" and d: "distinct (map fst (entries L))"
    by (auto simp: lru_inv_def)
  let ?d = "map_delete k (entries L)"
  have dist: "distinct (map fst (?d @ [(k, v)]))"
    using d map_has_delete[of k "entries L"] by (simp add: distinct_map_delete map_has_def)
  have "distinct (map fst (drop n (?d @ [(k, v)])))" for n
    using dist by (metis distinct_drop drop_map)
  then show ?thesis
    using mx by (auto simp: LRU_set_entries[OF mx d] lru_inv_def simp del: drop_append map_append)
qed

lemma LRU_get_inv: "lru_inv L \<Longrightarrow> lru_inv (snd (LRU_get k L)) \<and> maxSize (snd (LRU_get k L)) = maxSize L"
proof -
  assume a: "lru_inv L"
  show ?thesis
  proof (cases "map_get k (entries L)")
    case None then show ?thesis using a by (simp add: LRU_get_def)
  next
    case (Some v)
    then have has: "map_has k (entries L)"
      by (auto simp: map_get_def map_has_def dest: map_of_SomeD intro: rev_image_eqI)
    let ?d = "map_delete k (entries L)"
    have m2: "map_set k v ?d = ?d @ [(k, v)]"
      by (simp add: map_set_def map_has_delete)
    have dist: "distinct (map fst (?d @ [(k, v)]))"
      using a map_has_delete[of k "entries L"] by (simp add: distinct_map_delete map_has_def lru_inv_def)
    have "length ?d < length (entries L)"
      using has unfolding map_delete_def map_has_def
      by (auto intro!: length_filter_less)
    then show ?thesis using a Some dist by (simp add: LRU_get_def m2 lru_inv_def)
  qed
qed

lemma LRU_delete_inv: "lru_inv L \<Longrightarrow> lru_inv (LRU_delete k L) \<and> maxSize (LRU_delete k L) = maxSize L"
  using length_map_delete_le[of k "entries L"]
  by (auto simp: LRU_delete_def lru_inv_def distinct_map_delete)

lemma lru_step_inv: "lru_inv L \<Longrightarrow> \<exists>L'. lru_step x L = Some L' \<and> lru_inv L' \<and> maxSize L' = maxSize L"
  by (cases x) (simp_all add: LRU_get_inv LRU_set_inv LRU_delete_inv)

lemma lru_run_inv: "lru_inv L \<Longrightarrow> \<exists>L'. lru_run xs L = Some L' \<and> lru_inv L' \<and> maxSize L' = maxSize L"
proof (induction xs arbitrary: L)
  case Nil then show ?case by simp
next
  case (Cons x xs)
  from lru_step_inv[OF Cons.prems, of x] obtain L1 where
    s: "lru_step x L = Some L1" and i: "lru_inv L1" and m: "maxSize L1 = maxSize L" by blast
  from Cons.IH[OF i] m s show ?case by auto
qed

lemma lru_run_append: "lru_run (xs @ ys) L = (case lru_run xs L of None \<Rightarrow> None | Some L' \<Rightarrow> lru_run ys L')"
  by (induction xs arbitrary: L) (auto split: option.splits)


lemma length_map_delete_distinct:
  "distinct (map fst W) \<Longrightarrow> length W \<le> Suc (length (map_delete k W))"
  by (induction W) (auto simp: map_delete_def map_delete_absent[unfolded map_delete_def map_has_def])

lemma map_delete_append: "map_delete k (xs @ ys) = map_delete k xs @ map_delete k ys"
  by (simp add: map_delete_def)

lemma window_delete_snoc:
  assumes "distinct (map fst X)"
  shows "drop (Suc (length (map_delete k (drop (length X - C) X))) - C)
              (map_delete k (drop (length X - C) X) @ [kv])
         = drop (Suc (length (map_delete k X)) - C) (map_delete k X @ [kv])"
proof (cases "length X \<le> C")
  case True then show ?thesis by simp
next
  case False
  define P where "P = take (length X - C) X"
  define W where "W = drop (length X - C) X"
  have X: "X = P @ W" by (simp add: P_def W_def)
  have lW: "length W = C" using False by (simp add: W_def)
  have "distinct (map fst W)" using assms unfolding W_def by (metis distinct_drop drop_map)
  then have "C \<le> Suc (length (map_delete k W))"
    using length_map_delete_distinct[of W k] lW by simp
  then have "Suc (length (map_delete k P) + length (map_delete k W)) - C
             = length (map_delete k P) + (Suc (length (map_delete k W)) - C)" by simp
  then have "drop (Suc (length (map_delete k X)) - C) (map_delete k X @ [kv])
        = drop (Suc (length (map_delete k W)) - C) (map_delete k W @ [kv])"
    unfolding X by (simp add: map_delete_append)
  then show ?thesis by (simp add: W_def)
qed


lemma lru_run_sets:
  assumes "lru_inv L" "distinct (map fst kvs)"
  shows "\<exists>L'. lru_run (sets kvs) L = Some L' \<and> lru_inv L' \<and> maxSize L' = maxSize L \<and>
           entries L' = (let X = [e \<leftarrow> entries L. fst e \<notin> set (map fst kvs)] @ kvs
                         in drop (length X - nat (maxSize L)) X)"
  using assms(2)
proof (induction kvs rule: rev_induct)
  case Nil
  from assms(1) have "length (entries L) - nat (maxSize L) = 0" by (auto simp: lru_inv_def)
  with assms(1) show ?case by (simp add: Let_def)
next
  case (snoc kv kvs)
  obtain k v where kv: "kv = (k, v)" by (cases kv)
  from snoc.prems kv have d: "distinct (map fst kvs)" and knew: "k \<notin> set (map fst kvs)" by auto
  let ?F = "[e \<leftarrow> entries L. fst e \<notin> set (map fst kvs)]"
  let ?X = "?F @ kvs"
  from snoc.IH[OF d] obtain L1 where
    run: "lru_run (sets kvs) L = Some L1" and inv1: "lru_inv L1" and mx1: "maxSize L1 = maxSize L"
    and e1: "entries L1 = drop (length ?X - nat (maxSize L)) ?X" by (auto simp: Let_def)
  from inv1 have mx: "0 \<le> maxSize L1" and d1: "distinct (map fst (entries L1))"
    by (auto simp: lru_inv_def)
  from LRU_set_inv[OF inv1, of k v] obtain L2 where
    s2: "LRU_set k v L1 = Some L2" and inv2: "lru_inv L2" and mx2: "maxSize L2 = maxSize L1" by blast
  have dX: "distinct (map fst ?X)"
    using assms(1) d by (auto simp: lru_inv_def distinct_map_filter)
  have delX: "map_delete k ?X = [e \<leftarrow> entries L. fst e \<notin> set (map fst (kvs @ [kv]))] @ kvs"
  proof -
    have "map_delete k kvs = kvs" using knew by (simp add: map_delete_absent map_has_def)
    moreover have "map_delete k ?F = [e \<leftarrow> entries L. fst e \<notin> set (map fst (kvs @ [kv]))]"
      unfolding map_delete_def kv by (auto intro: filter_cong)
    ultimately show ?thesis by (simp add: map_delete_append)
  qed
  have "entries L2 = drop (Suc (length (map_delete k (entries L1))) - nat (maxSize L1)) (map_delete k (entries L1) @ [(k, v)])"
    using s2 unfolding LRU_set_entries[OF mx d1] by auto
  also have "\<dots> = drop (Suc (length (map_delete k ?X)) - nat (maxSize L)) (map_delete k ?X @ [(k, v)])"
    unfolding e1 mx1 by (rule window_delete_snoc[OF dX])
  finally have e2: "entries L2 = (let X = [e \<leftarrow> entries L. fst e \<notin> set (map fst (kvs @ [kv]))] @ kvs @ [kv]
                         in drop (length X - nat (maxSize L)) X)"
    unfolding delX by (simp add: kv Let_def)
  have "lru_run (sets (kvs @ [kv])) L = Some L2"
    using run s2 by (simp add: lru_run_append kv)
  with inv2 mx2 mx1 e2 show ?case by simp
qed


lemma lru_inv_new: "0 \<le> C \<Longrightarrow> lru_inv (LRU_new C)"
  by (simp add: lru_inv_def LRU_new_def)

lemma LRU_get_hit:
  "map_get k (entries L) = Some v \<Longrightarrow>
     LRU_get k L = (Some v, L\<lparr>entries := map_delete k (entries L) @ [(k, v)]\<rparr>)"
  by (simp add: LRU_get_def map_set_def map_has_delete)

lemma length_map_delete_has: "map_has k m \<Longrightarrow> length (map_delete k m) < length m"
  unfolding map_delete_def map_has_def by (auto intro!: length_filter_less)

lemma LRU_set_present:
  assumes "lru_inv L" "map_has k (entries L)"
  shows "LRU_set k v L = Some (L\<lparr>entries := map_delete k (entries L) @ [(k, v)]\<rparr>)"
proof -
  from assms(1) have mx: "0 \<le> maxSize L" and d: "distinct (map fst (entries L))"
    and le: "int (length (entries L)) \<le> maxSize L" by (auto simp: lru_inv_def)
  from length_map_delete_has[OF assms(2)] le
  have "Suc (length (map_delete k (entries L))) - nat (maxSize L) = 0" by auto
  then show ?thesis by (simp add: LRU_set_entries[OF mx d])
qed

lemma LRU_set_room:
  assumes "lru_inv L" "\<not> map_has k (entries L)" "int (length (entries L)) < maxSize L"
  shows "LRU_set k v L = Some (L\<lparr>entries := entries L @ [(k, v)]\<rparr>)"
proof -
  from assms(1) have mx: "0 \<le> maxSize L" and d: "distinct (map fst (entries L))"
    by (auto simp: lru_inv_def)
  from assms(3) have "Suc (length (entries L)) - nat (maxSize L) = 0" by auto
  then show ?thesis by (simp add: LRU_set_entries[OF mx d] map_delete_absent[OF assms(2)])
qed

lemma LRU_set_full:
  assumes "lru_inv L" "\<not> map_has k (entries L)" "int (length (entries L)) = maxSize L" "0 < maxSize L"
  shows "LRU_set k v L = Some (L\<lparr>entries := tl (entries L) @ [(k, v)]\<rparr>)"
proof -
  from assms(1) have mx: "0 \<le> maxSize L" and d: "distinct (map fst (entries L))"
    by (auto simp: lru_inv_def)
  from assms(3,4) have ne: "entries L \<noteq> []" by auto
  from assms(3) have "Suc (length (entries L)) - nat (maxSize L) = Suc 0" by auto
  moreover from ne have "Suc 0 - length (entries L) = 0" by (cases "entries L") auto
  ultimately show ?thesis using ne
    by (simp add: LRU_set_entries[OF mx d] map_delete_absent[OF assms(2)] drop_Suc)
qed

text \<open>
  Claim C3. Let \<open>L\<close> be the map reached from a new \<open>LRUMap\<close> of capacity \<open>C \<ge> 0\<close> by any
  sequence of \<open>get\<close>, \<open>set\<close> and \<open>delete\<close> calls. Every call returns and \<open>L\<close> holds at
  most \<open>C\<close> entries. On \<open>L\<close>, \<open>get\<close> of a stored key returns its value and moves the entry to
  the most-recently-used end; \<open>set\<close> of a stored key replaces the entry at that end, \<open>set\<close> of
  a new key appends it when there is room and otherwise evicts the single oldest entry;
  \<open>delete\<close> removes the key and nothing else. Setting \<open>N > C\<close> distinct keys in a row leaves
  exactly \<open>C\<close> entries: the last \<open>C\<close> keys set, oldest first.
\<close>

theorem LRUMap_capacity_and_recency:
  assumes "0 \<le> C"
  shows "\<exists>L. lru_run ops (LRU_new C) = Some L \<and> maxSize L = C
      \<and> int (length (entries L)) \<le> C
      \<and> (\<forall>k v. map_get k (entries L) = Some v \<longrightarrow>
             LRU_get k L = (Some v, L\<lparr>entries := map_delete k (entries L) @ [(k, v)]\<rparr>))
      \<and> (\<forall>k v. map_has k (entries L) \<longrightarrow>
             LRU_set k v L = Some (L\<lparr>entries := map_delete k (entries L) @ [(k, v)]\<rparr>))
      \<and> (\<forall>k v. \<not> map_has k (entries L) \<and> int (length (entries L)) < C \<longrightarrow>
             LRU_set k v L = Some (L\<lparr>entries := entries L @ [(k, v)]\<rparr>))
      \<and> (\<forall>k v. \<not> map_has k (entries L) \<and> int (length (entries L)) = C \<and> 0 < C \<longrightarrow>
             LRU_set k v L = Some (L\<lparr>entries := tl (entries L) @ [(k, v)]\<rparr>))
      \<and> (\<forall>k. LRU_delete k L = L\<lparr>entries := [e \<leftarrow> entries L. fst e \<noteq> k]\<rparr>)
      \<and> (distinct (map fst kvs) \<and> C < int (length kvs) \<longrightarrow>
            (\<exists>L'. lru_run (map (\<lambda>(k, v). Set k v) kvs) L = Some L'
                  \<and> entries L' = drop (length kvs - nat C) kvs
                  \<and> int (length (entries L')) = C))"
proof -
  from lru_run_inv[OF lru_inv_new[OF assms], of ops] obtain L where
    run: "lru_run ops (LRU_new C) = Some L" and inv: "lru_inv L" and mx: "maxSize L = C"
    by (auto simp: LRU_new_def)
  have bound: "int (length (entries L)) \<le> C" using inv mx by (simp add: lru_inv_def)
  have ins: "\<exists>L'. lru_run (map (\<lambda>(k, v). Set k v) kvs) L = Some L'
                  \<and> entries L' = drop (length kvs - nat C) kvs
                  \<and> int (length (entries L')) = C"
    if dk: "distinct (map fst kvs)" and big: "C < int (length kvs)"
  proof -
    from lru_run_sets[OF inv dk] obtain L' where
      r: "lru_run (sets kvs) L = Some L'" and
      e: "entries L' = (let X = [e \<leftarrow> entries L. fst e \<notin> set (map fst kvs)] @ kvs
                         in drop (length X - nat (maxSize L)) X)" by blast
    let ?F = "[e \<leftarrow> entries L. fst e \<notin> set (map fst kvs)]"
    from big assms have "nat C \<le> length kvs" by auto
    then have "length (?F @ kvs) - nat C = length ?F + (length kvs - nat C)" by simp
    then have "entries L' = drop (length kvs - nat C) kvs"
      using e mx by (simp add: Let_def)
    moreover from this big assms have "int (length (entries L')) = C" by auto
    ultimately show ?thesis using r by blast
  qed
  show ?thesis
    apply (rule exI[of _ L])
    using run mx bound ins inv
    by (auto simp: LRU_get_hit LRU_set_present LRU_set_room LRU_set_full LRU_delete_def map_delete_def)
qed

theorem LRUMap_capacity_and_recency_witness:
  "(0::int) \<le> 2 \<and> distinct (map fst [(3::nat, ''c''), (4, ''d''), (5, ''e'')])
   \<and> (2::int) < int (length [(3::nat, ''c''), (4, ''d''), (5, ''e'')])
   \<and> (\<exists>L. lru_run [Set 1 ''a'', Set 2 ''b'', Get 1, Delete 2] (LRU_new 2) = Some L
         \<and> int (length (entries L)) \<le> 2
         \<and> (\<exists>L'. lru_run (map (\<lambda>(k, v). Set k v) [(3::nat, ''c''), (4, ''d''), (5, ''e'')]) L = Some L'
               \<and> entries L' = drop (length [(3::nat, ''c''), (4, ''d''), (5, ''e'')] - nat 2) [(3, ''c''), (4, ''d''), (5, ''e'')]
               \<and> int (length (entries L')) = 2))"
  using LRUMap_capacity_and_recency[of 2 "[Set 1 ''a'', Set 2 ''b'', Get 1, Delete 2]" "[(3::nat, ''c''), (4, ''d''), (5, ''e'')]"]
  by auto



subsection \<open>SubscriptionManager\<close>



lemma map_get_keys: "map_get k m = None \<longleftrightarrow> k \<notin> set (map fst m)"
  by (simp add: map_get_def map_of_eq_None_iff)

















lemma two_active_value:
  "two_active =
     \<lparr>activeWallets = [''0xa1'', ''0xb2''],
      unsubscribeFns =
        [(''0xa1'', [TransactionsChannel ''0xa1'', DepositsChannel ''0xa1'']),
         (''0xb2'', [TransactionsChannel ''0xb2'', DepositsChannel ''0xb2''])],
      evictionCallbacks = [(''0xa1'', Returning 3), (''0xb2'', Returning 3)],
      effects =
        [Subscribed (TransactionsChannel ''0xa1''), Subscribed (DepositsChannel ''0xa1''),
         Subscribed (TransactionsChannel ''0xb2''), Subscribed (DepositsChannel ''0xb2'')]\<rparr>"
  by code_simp



text \<open>
  Outside the hypotheses of the theorem the eviction does not take place. When the
  eviction callback throws, \<open>activateWallet\<close> is left by the exception right after the
  call: nothing is torn down, the old wallet stays active and the new one is not
  subscribed. When the first member of the active set is the empty string, which is no
  wallet address, the test of \<open>oldestResult.value\<close> skips the eviction.
\<close>

lemma activateWallet_onEvicted_throws:
  assumes "activeWallets s = oldest # rest" and "mx \<le> int (length (activeWallets s))"
    and "truthy oldest" and "map_get oldest (evictionCallbacks s) = Some (Throwing n)"
    and "\<not> isWalletActive w s"
  shows "activateWallet mx w cb s =
           Abrupt (s\<lparr>effects := effects s @ [EvictedCalled (Throwing n) oldest]\<rparr>)"
  using assms by (simp add: activateWallet_def evict_if_full_def isWalletActive_def Let_def)

lemma activateWallet_onEvicted_throws_example:
  "activateWallet 2 ''0xC3'' example_callbacks
     (manager_run 2 [Activate ''0xA1'' throwing_callbacks, Activate ''0xB2'' example_callbacks])
   = Abrupt
       ((manager_run 2 [Activate ''0xA1'' throwing_callbacks, Activate ''0xB2'' example_callbacks])
          \<lparr>effects :=
             [Subscribed (TransactionsChannel ''0xa1''), Subscribed (DepositsChannel ''0xa1''),
              Subscribed (TransactionsChannel ''0xb2''), Subscribed (DepositsChannel ''0xb2''),
              EvictedCalled (Throwing 4) ''0xa1'']\<rparr>)
   \<and> activeWallets
       (manager_run 2 [Activate ''0xA1'' throwing_callbacks, Activate ''0xB2'' example_callbacks])
     = [''0xa1'', ''0xb2'']"
  by code_simp

lemma activateWallet_empty_oldest_address:
  "int (getActiveWalletCount ten_active_first_empty) = 10
   \<and> \<not> isWalletActive ''0x0a'' ten_active_first_empty
   \<and> activeWallets (state_after (activateWallet 10 ''0x0a'' example_callbacks ten_active_first_empty)) =
       ['''', ''0x01'', ''0x02'', ''0x03'', ''0x04'', ''0x05'', ''0x06'', ''0x07'', ''0x08'',
        ''0x09'', ''0x0a'']"
  unfolding ten_active_first_empty_def by code_simp

text \<open>
  Claim C5. \<open>activateWallet\<close> for a wallet that is already active returns the manager as it
  was: the active set, the teardown handles, the eviction callbacks and the recorded
  effects (no channel created, no eviction) are all unchanged.
\<close>

theorem activateWallet_idempotent:
  "isWalletActive w s \<Longrightarrow> activateWallet mx w cb s = Normal s"
  by (simp add: activateWallet_def isWalletActive_def)

theorem activateWallet_idempotent_witness:
  "isWalletActive ''0xA1'' two_active
   \<and> activateWallet 2 ''0xA1'' example_callbacks two_active = Normal two_active"
proof -
  have "toLowerCase ''0xA1'' = ''0xa1''" by code_simp
  then have h: "isWalletActive ''0xA1'' two_active"
    by (simp add: isWalletActive_def two_active_value)
  from activateWallet_idempotent[OF h] h show ?thesis by simp
qed

subsection \<open>Cache reconciliation\<close>

lemma setQueryData_same: "setQueryData key f cache key = Some (f (cache key))"
  by (simp add: setQueryData_def)

lemma setQueryData_other: "k \<noteq> key \<Longrightarrow> setQueryData key f cache k = cache k"
  by (simp add: setQueryData_def)

lemma insert_updater_props:
  "insert_updater tx converted old =
      take MAX_CACHE_TRANSACTIONS
        (converted # filter (\<lambda>t. \<not> (optimistic t \<and> hash t = tx_hash tx)) (or_empty old))"
  "length (insert_updater tx converted old) \<le> MAX_CACHE_TRANSACTIONS"
  "hd (insert_updater tx converted old) = converted"
  "\<forall>t \<in> set (tl (insert_updater tx converted old)). \<not> (optimistic t \<and> hash t = tx_hash tx)"
proof -
  let ?f = "filter (\<lambda>t. \<not> (optimistic t \<and> hash t = tx_hash tx)) (or_empty old)"
  show eq: "insert_updater tx converted old = take MAX_CACHE_TRANSACTIONS (converted # ?f)"
    by (simp add: insert_updater_def slice0_def)
  show "length (insert_updater tx converted old) \<le> MAX_CACHE_TRANSACTIONS"
    unfolding eq by simp
  have "take MAX_CACHE_TRANSACTIONS (converted # ?f) = converted # take 499 ?f"
    by (simp add: MAX_CACHE_TRANSACTIONS_def take_Cons')
  then have eq2: "insert_updater tx converted old = converted # take 499 ?f"
    using eq by simp
  show "hd (insert_updater tx converted old) = converted"
    unfolding eq2 by simp
  show "\<forall>t \<in> set (tl (insert_updater tx converted old)). \<not> (optimistic t \<and> hash t = tx_hash tx)"
    unfolding eq2 by (auto dest: in_set_takeD)
qed

lemma history_updater_props:
  "history_updater converted old = take MAX_CACHE_TRANSACTIONS (converted # or_empty old)"
  "length (history_updater converted old) \<le> MAX_CACHE_TRANSACTIONS"
  "hd (history_updater converted old) = converted"
  "length (or_empty old) = MAX_CACHE_TRANSACTIONS \<longrightarrow>
     history_updater converted old = converted # butlast (or_empty old)"
  "length (or_empty old) < MAX_CACHE_TRANSACTIONS \<longrightarrow>
     history_updater converted old = converted # or_empty old"
proof -
  show eq: "history_updater converted old = take MAX_CACHE_TRANSACTIONS (converted # or_empty old)"
    by (simp add: history_updater_def slice0_def)
  show "length (history_updater converted old) \<le> MAX_CACHE_TRANSACTIONS"
    unfolding eq by simp
  have eq2: "history_updater converted old = converted # take 499 (or_empty old)"
    unfolding eq by (simp add: MAX_CACHE_TRANSACTIONS_def take_Cons')
  show "hd (history_updater converted old) = converted"
    unfolding eq2 by simp
  show "length (or_empty old) = MAX_CACHE_TRANSACTIONS \<longrightarrow>
     history_updater converted old = converted # butlast (or_empty old)"
    unfolding eq2 by (simp add: MAX_CACHE_TRANSACTIONS_def butlast_conv_take)
  show "length (or_empty old) < MAX_CACHE_TRANSACTIONS \<longrightarrow>
     history_updater converted old = converted # or_empty old"
    unfolding eq2 by (simp add: MAX_CACHE_TRANSACTIONS_def)
qed


lemma onInsert_processor_merges:
  assumes "walletDetails = Fulfilled (Some wallet)"
    and "activeConfirmations = Fulfilled confirmations"
    and "convertIndexerTransaction getAddress getTime tx (wallet_threshold wallet) confirmations
           = Some converted"
  shows "onInsert_processor getAddress getTime w tx walletDetails True activeConfirmations True cache
           = Inr (setQueryData (''pendingTransactions'', w) (insert_updater tx converted) cache)"
  unfolding onInsert_processor_def assms(1,2) using assms(3) by simp

lemma onUpdate_processor_final:
  assumes "walletDetails = Fulfilled (Some wallet)"
    and "activeConfirmations = Fulfilled confirmations"
    and "convertIndexerTransaction getAddress getTime tx (wallet_threshold wallet) confirmations
           = Some converted"
    and "status tx = ''executed'' \<or> status tx = ''cancelled''"
  shows "onUpdate_processor getAddress getTime w tx walletDetails True activeConfirmations True cache
           = Inr (setQueryData
                    (if status tx = ''executed'' then ''executedTransactions''
                     else ''cancelledTransactions'', w)
                    (history_updater converted)
                    (setQueryData (''pendingTransactions'', w) (remove_updater tx) cache))"
  unfolding onUpdate_processor_def assms(1,2) Let_def using assms(3,4) by simp

text \<open>
  Claim C10. Take an event whose processor runs to the merge: the wallet details and the
  active confirmations were fetched, the scope is still live at both resumptions and the
  conversion produced the canonical record. On insert the pending collection becomes the
  canonical record followed by the old entries without the optimistic placeholders of the
  same hash, cut to \<open>MAX_CACHE_TRANSACTIONS\<close>; nothing else in the cache changes. On an
  update to \<open>executed\<close> or \<open>cancelled\<close> every entry with that hash leaves the pending
  collection, and the canonical record is put in front of the matching history collection,
  which is cut to \<open>MAX_CACHE_TRANSACTIONS\<close>: a full history loses its last, oldest entry.
  The other history collection is untouched.
\<close>

theorem merge_insert_and_status_transition:
  assumes "walletDetails = Fulfilled (Some wallet)"
    and "activeConfirmations = Fulfilled confirmations"
    and "convertIndexerTransaction getAddress getTime tx (wallet_threshold wallet) confirmations
           = Some converted"
  shows "(\<exists>cache'.
            onInsert_processor getAddress getTime w tx walletDetails True activeConfirmations True cache
              = Inr cache'
          \<and> cache' (''pendingTransactions'', w) =
              Some (take MAX_CACHE_TRANSACTIONS
                (converted # filter (\<lambda>t. \<not> (optimistic t \<and> hash t = tx_hash tx))
                               (or_empty (cache (''pendingTransactions'', w)))))
          \<and> (\<forall>p. cache' (''pendingTransactions'', w) = Some p \<longrightarrow>
                 length p \<le> MAX_CACHE_TRANSACTIONS \<and> hd p = converted
               \<and> (\<forall>t \<in> set (tl p). \<not> (optimistic t \<and> hash t = tx_hash tx)))
          \<and> (\<forall>k. k \<noteq> (''pendingTransactions'', w) \<longrightarrow> cache' k = cache k))
       \<and> (status tx = ''executed'' \<or> status tx = ''cancelled'' \<longrightarrow>
           (\<exists>cache' historyKey otherKey.
              onUpdate_processor getAddress getTime w tx walletDetails True activeConfirmations True cache
                = Inr cache'
            \<and> (historyKey, otherKey) =
                 (if status tx = ''executed''
                  then (''executedTransactions'', ''cancelledTransactions'')
                  else (''cancelledTransactions'', ''executedTransactions''))
            \<and> cache' (''pendingTransactions'', w) =
                Some (filter (\<lambda>t. hash t \<noteq> tx_hash tx) (or_empty (cache (''pendingTransactions'', w))))
            \<and> cache' (historyKey, w) =
                Some (take MAX_CACHE_TRANSACTIONS (converted # or_empty (cache (historyKey, w))))
            \<and> (\<forall>h. cache' (historyKey, w) = Some h \<longrightarrow>
                  length h \<le> MAX_CACHE_TRANSACTIONS \<and> hd h = converted)
            \<and> (length (or_empty (cache (historyKey, w))) = MAX_CACHE_TRANSACTIONS \<longrightarrow>
                  cache' (historyKey, w) = Some (converted # butlast (or_empty (cache (historyKey, w)))))
            \<and> (length (or_empty (cache (historyKey, w))) < MAX_CACHE_TRANSACTIONS \<longrightarrow>
                  cache' (historyKey, w) = Some (converted # or_empty (cache (historyKey, w))))
            \<and> cache' (otherKey, w) = cache (otherKey, w)))"
proof -
  let ?pk = "(''pendingTransactions'', w)"
  let ?c1 = "setQueryData ?pk (insert_updater tx converted) cache"
  have run: "onInsert_processor getAddress getTime w tx walletDetails True activeConfirmations True cache
              = Inr ?c1"
    by (rule onInsert_processor_merges[OF assms])
  have same: "?c1 ?pk = Some (insert_updater tx converted (cache ?pk))"
    by (rule setQueryData_same)
  have rest: "\<forall>k. k \<noteq> ?pk \<longrightarrow> ?c1 k = cache k"
    by (simp add: setQueryData_other)
  note ip = insert_updater_props[where tx=tx and converted=converted and old="cache ?pk"]
  have insert_part: "\<exists>cache'.
            onInsert_processor getAddress getTime w tx walletDetails True activeConfirmations True cache
              = Inr cache'
          \<and> cache' ?pk =
              Some (take MAX_CACHE_TRANSACTIONS
                (converted # filter (\<lambda>t. \<not> (optimistic t \<and> hash t = tx_hash tx))
                               (or_empty (cache ?pk))))
          \<and> (\<forall>p. cache' ?pk = Some p \<longrightarrow>
                 length p \<le> MAX_CACHE_TRANSACTIONS \<and> hd p = converted
               \<and> (\<forall>t \<in> set (tl p). \<not> (optimistic t \<and> hash t = tx_hash tx)))
          \<and> (\<forall>k. k \<noteq> ?pk \<longrightarrow> cache' k = cache k)"
  proof (intro exI[of _ ?c1] conjI allI impI)
    show "onInsert_processor getAddress getTime w tx walletDetails True activeConfirmations True cache
              = Inr ?c1" by (rule run)
    show "?c1 ?pk = Some (take MAX_CACHE_TRANSACTIONS
                (converted # filter (\<lambda>t. \<not> (optimistic t \<and> hash t = tx_hash tx))
                               (or_empty (cache ?pk))))"
      using same ip(1) by simp
    fix p assume "?c1 ?pk = Some p"
    then have p: "p = insert_updater tx converted (cache ?pk)" using same by simp
    show "length p \<le> MAX_CACHE_TRANSACTIONS" unfolding p by (rule ip(2))
    show "hd p = converted" unfolding p by (rule ip(3))
    show "\<forall>t \<in> set (tl p). \<not> (optimistic t \<and> hash t = tx_hash tx)" unfolding p by (rule ip(4))
  next
    fix k assume "k \<noteq> ?pk"
    then show "?c1 k = cache k" by (rule setQueryData_other)
  qed
  have update_part: "\<exists>cache' historyKey otherKey.
              onUpdate_processor getAddress getTime w tx walletDetails True activeConfirmations True cache
                = Inr cache'
            \<and> (historyKey, otherKey) =
                 (if status tx = ''executed''
                  then (''executedTransactions'', ''cancelledTransactions'')
                  else (''cancelledTransactions'', ''executedTransactions''))
            \<and> cache' ?pk =
                Some (filter (\<lambda>t. hash t \<noteq> tx_hash tx) (or_empty (cache ?pk)))
            \<and> cache' (historyKey, w) =
                Some (take MAX_CACHE_TRANSACTIONS (converted # or_empty (cache (historyKey, w))))
            \<and> (\<forall>h. cache' (historyKey, w) = Some h \<longrightarrow>
                  length h \<le> MAX_CACHE_TRANSACTIONS \<and> hd h = converted)
            \<and> (length (or_empty (cache (historyKey, w))) = MAX_CACHE_TRANSACTIONS \<longrightarrow>
                  cache' (historyKey, w) = Some (converted # butlast (or_empty (cache (historyKey, w)))))
            \<and> (length (or_empty (cache (historyKey, w))) < MAX_CACHE_TRANSACTIONS \<longrightarrow>
                  cache' (historyKey, w) = Some (converted # or_empty (cache (historyKey, w))))
            \<and> cache' (otherKey, w) = cache (otherKey, w)"
    if st: "status tx = ''executed'' \<or> status tx = ''cancelled''"
  proof -
    define hk where "hk = (if status tx = ''executed'' then ''executedTransactions'' else ''cancelledTransactions'')"
    define ok where "ok = (if status tx = ''executed'' then ''cancelledTransactions'' else ''executedTransactions'')"
    let ?c1 = "setQueryData ?pk (remove_updater tx) cache"
    let ?c2 = "setQueryData (hk, w) (history_updater converted) ?c1"
    have ne1: "(hk, w) \<noteq> ?pk" by (simp add: hk_def)
    have ne2: "(ok, w) \<noteq> ?pk" by (simp add: ok_def)
    have ne3: "(ok, w) \<noteq> (hk, w)" by (simp add: hk_def ok_def)
    have run: "onUpdate_processor getAddress getTime w tx walletDetails True activeConfirmations True cache
              = Inr ?c2"
      unfolding hk_def by (rule onUpdate_processor_final[OF assms st])
    have "?c2 ?pk = ?c1 ?pk" using ne1 by (simp add: setQueryData_other)
    then have pend: "?c2 ?pk = Some (filter (\<lambda>t. hash t \<noteq> tx_hash tx) (or_empty (cache ?pk)))"
      by (simp add: setQueryData_same remove_updater_def)
    have "?c1 (hk, w) = cache (hk, w)" using ne1 by (simp add: setQueryData_other)
    then have hist: "?c2 (hk, w) = Some (history_updater converted (cache (hk, w)))"
      by (simp add: setQueryData_same)
    have "?c2 (ok, w) = ?c1 (ok, w)" using ne3 by (simp add: setQueryData_other)
    then have other: "?c2 (ok, w) = cache (ok, w)" using ne2 by (simp add: setQueryData_other)
    have keys: "(hk, ok) = (if status tx = ''executed''
                  then (''executedTransactions'', ''cancelledTransactions'')
                  else (''cancelledTransactions'', ''executedTransactions''))"
      by (simp add: hk_def ok_def)
    note hp = history_updater_props[where converted=converted and old="cache (hk, w)"]
    show ?thesis
    proof (rule exI[of _ ?c2], rule exI[of _ hk], rule exI[of _ ok], intro conjI allI impI)
      show "onUpdate_processor getAddress getTime w tx walletDetails True activeConfirmations True cache
              = Inr ?c2" by (rule run)
      show "(hk, ok) = (if status tx = ''executed''
                  then (''executedTransactions'', ''cancelledTransactions'')
                  else (''cancelledTransactions'', ''executedTransactions''))" by (fact keys)
      show "?c2 ?pk = Some (filter (\<lambda>t. hash t \<noteq> tx_hash tx) (or_empty (cache ?pk)))" by (rule pend)
      show "?c2 (hk, w) = Some (take MAX_CACHE_TRANSACTIONS (converted # or_empty (cache (hk, w))))"
        using hist hp(1) by simp
      show "?c2 (ok, w) = cache (ok, w)" by (rule other)
    next
      fix h assume "?c2 (hk, w) = Some h"
      then have h: "h = history_updater converted (cache (hk, w))" using hist by simp
      show "length h \<le> MAX_CACHE_TRANSACTIONS" unfolding h by (rule hp(2))
      show "hd h = converted" unfolding h by (rule hp(3))
    next
      assume "length (or_empty (cache (hk, w))) = MAX_CACHE_TRANSACTIONS"
      then show "?c2 (hk, w) = Some (converted # butlast (or_empty (cache (hk, w))))"
        using hist hp(4) by simp
    next
      assume "length (or_empty (cache (hk, w))) < MAX_CACHE_TRANSACTIONS"
      then show "?c2 (hk, w) = Some (converted # or_empty (cache (hk, w)))"
        using hist hp(5) by simp
    qed
  qed
  from insert_part update_part show ?thesis by blast
qed

theorem merge_insert_and_status_transition_witness:
  "convertIndexerTransaction Some (\<lambda>s. 0) example_tx (wallet_threshold \<lparr>wallet_threshold = 2\<rparr>)
       [\<lparr>owner_address = ''0xo1'', is_active = True\<rparr>, \<lparr>owner_address = ''0xo2'', is_active = False\<rparr>]
     = Some example_converted
   \<and> status example_tx = ''executed''
   \<and> (\<exists>cache'.
         onInsert_processor Some (\<lambda>s. 0) ''0xw'' example_tx
             (Fulfilled (Some \<lparr>wallet_threshold = 2\<rparr>)) True
             (Fulfilled [\<lparr>owner_address = ''0xo1'', is_active = True\<rparr>,
                         \<lparr>owner_address = ''0xo2'', is_active = False\<rparr>]) True example_cache
           = Inr cache'
       \<and> cache' (''pendingTransactions'', ''0xw'') = Some [example_converted, example_other])
   \<and> (\<exists>cache'.
         onUpdate_processor Some (\<lambda>s. 0) ''0xw'' example_tx
             (Fulfilled (Some \<lparr>wallet_threshold = 2\<rparr>)) True
             (Fulfilled [\<lparr>owner_address = ''0xo1'', is_active = True\<rparr>,
                         \<lparr>owner_address = ''0xo2'', is_active = False\<rparr>]) True example_cache
           = Inr cache'
       \<and> cache' (''pendingTransactions'', ''0xw'') = Some [example_other]
       \<and> cache' (''executedTransactions'', ''0xw'') = Some [example_converted]
       \<and> cache' (''cancelledTransactions'', ''0xw'') = None)"
proof -
  let ?confs = "[\<lparr>owner_address = ''0xo1'', is_active = True\<rparr>, \<lparr>owner_address = ''0xo2'', is_active = False\<rparr>]"
  have conv: "convertIndexerTransaction Some (\<lambda>s. 0) example_tx (wallet_threshold \<lparr>wallet_threshold = 2\<rparr>) ?confs
              = Some example_converted"
    by (simp add: convertIndexerTransaction_def example_tx_def example_converted_def map_set_def map_has_def)
  have st: "status example_tx = ''executed''" by (simp add: example_tx_def)
  have pend: "or_empty (example_cache (''pendingTransactions'', ''0xw'')) = [example_placeholder, example_other]"
    by (simp add: example_cache_def or_empty_def)
  have hist: "or_empty (example_cache (''executedTransactions'', ''0xw'')) = []"
    by (simp add: example_cache_def or_empty_def)
  have canc: "example_cache (''cancelledTransactions'', ''0xw'') = None"
    by (simp add: example_cache_def)
  have f1: "filter (\<lambda>t. \<not> (optimistic t \<and> hash t = tx_hash example_tx)) [example_placeholder, example_other]
            = [example_other]"
    by (simp add: example_placeholder_def example_other_def example_converted_def example_tx_def)
  have f2: "filter (\<lambda>t. hash t \<noteq> tx_hash example_tx) [example_placeholder, example_other]
            = [example_other]"
    by (simp add: example_placeholder_def example_other_def example_converted_def example_tx_def)
  note inst = merge_insert_and_status_transition[OF refl refl conv, where w = "''0xw''" and cache = example_cache]
  from inst have ins: "\<exists>cache'.
         onInsert_processor Some (\<lambda>s. 0) ''0xw'' example_tx
             (Fulfilled (Some \<lparr>wallet_threshold = 2\<rparr>)) True (Fulfilled ?confs) True example_cache
           = Inr cache'
       \<and> cache' (''pendingTransactions'', ''0xw'') = Some [example_converted, example_other]"
    unfolding pend f1 by (auto simp: MAX_CACHE_TRANSACTIONS_def)
  from inst st have upd: "\<exists>cache'.
         onUpdate_processor Some (\<lambda>s. 0) ''0xw'' example_tx
             (Fulfilled (Some \<lparr>wallet_threshold = 2\<rparr>)) True (Fulfilled ?confs) True example_cache
           = Inr cache'
       \<and> cache' (''pendingTransactions'', ''0xw'') = Some [example_other]
       \<and> cache' (''executedTransactions'', ''0xw'') = Some [example_converted]
       \<and> cache' (''cancelledTransactions'', ''0xw'') = None"
    unfolding pend f2 by (auto simp: MAX_CACHE_TRANSACTIONS_def hist canc)
  from conv st ins upd show ?thesis by blast
qed

lemma map_get_map_set: "map_get k (map_set k v m) = Some v"
proof (cases "map_has k m")
  case False
  then have "map_of m k = None" by (simp add: map_has_def map_of_eq_None_iff)
  then show ?thesis using False
    by (simp add: map_get_def map_set_def map_add_def)
next
  case True
  then show ?thesis
    by (induction m) (auto simp: map_get_def map_set_def map_has_def)
qed

subsection \<open>Reconnection\<close>

lemma client_run_append:
  "client_run c (xs @ ys) ch =
     (fst (client_run c ys (fst (client_run c xs ch))),
      snd (client_run c xs ch) @ snd (client_run c ys (fst (client_run c xs ch))))"
  by (induction xs arbitrary: ch) (simp_all add: Let_def)

lemma client_step_inv:
  assumes "state ch = SUBSCRIBED \<longrightarrow> attempts ch = 0"
  shows "state (fst (client_step c e ch)) = SUBSCRIBED \<longrightarrow> attempts (fst (client_step c e ch)) = 0"
  using assms by (cases e) (auto simp: on_success_def on_failure_def Let_def)

lemma client_run_inv:
  assumes "state ch = SUBSCRIBED \<longrightarrow> attempts ch = 0"
  shows "state (fst (client_run c es ch)) = SUBSCRIBED \<longrightarrow> attempts (fst (client_run c es ch)) = 0"
  using assms
proof (induction es arbitrary: ch)
  case Nil
  then show ?case by simp
next
  case (Cons e es)
  from Cons.IH[OF client_step_inv[OF Cons.prems, of c e]] show ?case by (simp add: Let_def)
qed

lemma consecutive_failures:
  assumes "state ch \<noteq> FAILED" and "attempts ch + k \<le> max_attempts c"
  shows "snd (client_run c (replicate k Failure) ch)
           = map (\<lambda>i. RetryAfter (backoff c (attempts ch + i))) [0..<k]
       \<and> attempts (fst (client_run c (replicate k Failure) ch)) = attempts ch + k
       \<and> state (fst (client_run c (replicate k Failure) ch)) \<noteq> FAILED"
  using assms
proof (induction k arbitrary: ch)
  case 0
  then show ?case by simp
next
  case (Suc k)
  let ?ch1 = "ch\<lparr>state := RECONNECTING, attempts := attempts ch + 1,
                  backoff_delay := backoff c (attempts ch)\<rparr>"
  from Suc.prems have step: "on_failure c ch = (?ch1, [RetryAfter (backoff c (attempts ch))])"
    by (simp add: on_failure_def Let_def)
  have "state ?ch1 \<noteq> FAILED" and "attempts ?ch1 + k \<le> max_attempts c"
    using Suc.prems by simp_all
  from Suc.IH[OF this]
  have ih: "snd (client_run c (replicate k Failure) ?ch1)
              = map (\<lambda>i. RetryAfter (backoff c (attempts ch + 1 + i))) [0..<k]"
    and ih2: "attempts (fst (client_run c (replicate k Failure) ?ch1)) = attempts ch + 1 + k"
    and ih3: "state (fst (client_run c (replicate k Failure) ?ch1)) \<noteq> FAILED"
    by simp_all
  have shift: "map (\<lambda>i. RetryAfter (backoff c (attempts ch + i))) [0..<Suc k]
               = RetryAfter (backoff c (attempts ch))
                 # map (\<lambda>i. RetryAfter (backoff c (attempts ch + 1 + i))) [0..<k]"
    by (simp add: upt_rec[of 0 "Suc k"] map_Suc_upt[symmetric] del: upt_Suc)
  show ?case
    using step ih ih2 ih3 unfolding shift by (simp add: Let_def)
qed

lemma backoff_bounds:
  assumes "0 < base_delay c"
  shows "backoff c n \<le> max_delay c"
    and "backoff c n \<le> backoff c (Suc n)"
    and "backoff c n < max_delay c \<Longrightarrow> backoff c n < backoff c (Suc n)"
proof -
  show "backoff c n \<le> max_delay c" by (simp add: backoff_def)
  have d: "base_delay c * 2 ^ n < base_delay c * 2 ^ Suc n" using assms by simp
  then show "backoff c n \<le> backoff c (Suc n)" by (simp add: backoff_def min_def)
  show "backoff c n < backoff c (Suc n)" if "backoff c n < max_delay c"
    using that d by (simp add: backoff_def min_def split: if_splits)
qed

lemma failed_absorbs: "state ch = FAILED \<Longrightarrow> client_run c es ch = (ch, [])"
proof (induction es)
  case Nil
  show ?case by simp
next
  case (Cons e es)
  then have "client_step c e ch = (ch, [])"
    by (cases e) (simp_all add: on_success_def on_failure_def)
  with Cons show ?case by (simp add: Let_def)
qed

lemma success_after_reconnecting:
  "state ch = RECONNECTING \<Longrightarrow>
     client_step c Success ch = (ch\<lparr>state := SUBSCRIBED, attempts := 0\<rparr>, [OnReconnect])"
  by (simp add: on_success_def)

lemma failures_until_failed:
  assumes "state ch \<noteq> FAILED" and "attempts ch = 0"
  shows "state (fst (client_run c (replicate (Suc (max_attempts c)) Failure) ch)) = FAILED
       \<and> snd (client_run c (replicate (Suc (max_attempts c)) Failure) ch)
           = map (\<lambda>i. RetryAfter (backoff c i)) [0..<max_attempts c] @ [OnError True]"
proof -
  let ?k = "max_attempts c"
  let ?mid = "fst (client_run c (replicate ?k Failure) ch)"
  from assms have "attempts ch + ?k \<le> max_attempts c" by simp
  from consecutive_failures[OF assms(1) this] assms(2)
  have out: "snd (client_run c (replicate ?k Failure) ch) = map (\<lambda>i. RetryAfter (backoff c i)) [0..<?k]"
    and att: "attempts ?mid = ?k" and st: "state ?mid \<noteq> FAILED"
    by simp_all
  have last: "on_failure c ?mid = (?mid\<lparr>state := FAILED\<rparr>, [OnError True])"
    using att st by (simp add: on_failure_def)
  have split: "replicate (Suc ?k) Failure = replicate ?k Failure @ [Failure]"
    by (simp add: replicate_append_same)
  show ?thesis
    unfolding split client_run_append using out last by (simp add: Let_def)
qed

text \<open>
  Claim C9, on the client as the specification describes it. In every state a channel
  can reach, a subscribed channel has its attempt counter at zero, and a success resets it
  at once. A failure with attempts left schedules a retry after \<open>base \<times> 2^attempts\<close>
  capped at the ceiling and increments the attempts, so that consecutive failures
  schedule the delays of the successive attempt numbers: these never exceed the ceiling,
  never decrease, and strictly increase as long as the ceiling is not reached. A failure
  once the maximum attempt count is used up takes the channel to failed and calls
  \<open>onError\<close> with the terminal flag set, after which nothing is retried.
\<close>

theorem reconnect_backoff:
  assumes "0 < base_delay c"
  shows "(state (fst (client_run c events channel_init)) = SUBSCRIBED \<longrightarrow>
            attempts (fst (client_run c events channel_init)) = 0)
       \<and> (state ch \<noteq> FAILED \<longrightarrow>
            state (fst (client_step c Success ch)) = SUBSCRIBED
          \<and> attempts (fst (client_step c Success ch)) = 0)
       \<and> (state ch \<noteq> FAILED \<and> attempts ch < max_attempts c \<longrightarrow>
            client_step c Failure ch =
              (ch\<lparr>state := RECONNECTING, attempts := attempts ch + 1,
                  backoff_delay := min (base_delay c * 2 ^ attempts ch) (max_delay c)\<rparr>,
               [RetryAfter (min (base_delay c * 2 ^ attempts ch) (max_delay c))]))
       \<and> (state ch \<noteq> FAILED \<and> attempts ch + k \<le> max_attempts c \<longrightarrow>
            snd (client_run c (replicate k Failure) ch)
              = map (\<lambda>i. RetryAfter (backoff c (attempts ch + i))) [0..<k])
       \<and> backoff c n \<le> max_delay c
       \<and> backoff c n \<le> backoff c (Suc n)
       \<and> (backoff c n < max_delay c \<longrightarrow> backoff c n < backoff c (Suc n))
       \<and> (state ex \<noteq> FAILED \<and> max_attempts c \<le> attempts ex \<longrightarrow>
            client_step c Failure ex = (ex\<lparr>state := FAILED\<rparr>, [OnError True])
          \<and> client_run c events (ex\<lparr>state := FAILED\<rparr>) = (ex\<lparr>state := FAILED\<rparr>, []))
       \<and> (state ch \<noteq> FAILED \<and> attempts ch = 0 \<longrightarrow>
            state (fst (client_run c (replicate (Suc (max_attempts c)) Failure) ch)) = FAILED
          \<and> snd (client_run c (replicate (Suc (max_attempts c)) Failure) ch)
              = map (\<lambda>i. RetryAfter (backoff c i)) [0..<max_attempts c] @ [OnError True])"
proof -
  have p1: "state (fst (client_run c events channel_init)) = SUBSCRIBED \<longrightarrow>
            attempts (fst (client_run c events channel_init)) = 0"
    by (rule client_run_inv) (simp add: channel_init_def)
  have p2: "state ch \<noteq> FAILED \<longrightarrow>
            state (fst (client_step c Success ch)) = SUBSCRIBED
          \<and> attempts (fst (client_step c Success ch)) = 0"
    by (simp add: on_success_def)
  have p3: "state ch \<noteq> FAILED \<and> attempts ch < max_attempts c \<longrightarrow>
            client_step c Failure ch =
              (ch\<lparr>state := RECONNECTING, attempts := attempts ch + 1,
                  backoff_delay := min (base_delay c * 2 ^ attempts ch) (max_delay c)\<rparr>,
               [RetryAfter (min (base_delay c * 2 ^ attempts ch) (max_delay c))])"
    by (simp add: on_failure_def backoff_def Let_def)
  have p4: "state ch \<noteq> FAILED \<and> attempts ch + k \<le> max_attempts c \<longrightarrow>
            snd (client_run c (replicate k Failure) ch)
              = map (\<lambda>i. RetryAfter (backoff c (attempts ch + i))) [0..<k]"
    using consecutive_failures[of ch k c] by blast
  note b = backoff_bounds[OF assms, of n]
  have p7: "backoff c n < max_delay c \<longrightarrow> backoff c n < backoff c (Suc n)"
    using b(3) by blast
  have p8: "state ex \<noteq> FAILED \<and> max_attempts c \<le> attempts ex \<longrightarrow>
            client_step c Failure ex = (ex\<lparr>state := FAILED\<rparr>, [OnError True])
          \<and> client_run c events (ex\<lparr>state := FAILED\<rparr>) = (ex\<lparr>state := FAILED\<rparr>, [])"
    using failed_absorbs[of "ex\<lparr>state := FAILED\<rparr>" c events]
    by (simp add: on_failure_def)
  have p9: "state ch \<noteq> FAILED \<and> attempts ch = 0 \<longrightarrow>
            state (fst (client_run c (replicate (Suc (max_attempts c)) Failure) ch)) = FAILED
          \<and> snd (client_run c (replicate (Suc (max_attempts c)) Failure) ch)
              = map (\<lambda>i. RetryAfter (backoff c i)) [0..<max_attempts c] @ [OnError True]"
    using failures_until_failed[of ch c] by blast
  from p1 p2 p3 p4 b(1) b(2) p7 p8 p9 show ?thesis by (intro conjI) assumption+
qed

theorem reconnect_backoff_witness:
  "0 < base_delay example_config
   \<and> state (fst (client_run example_config [Failure, Failure, Success] channel_init)) = SUBSCRIBED
   \<and> attempts (fst (client_run example_config [Failure, Failure, Success] channel_init)) = 0
   \<and> state channel_init \<noteq> FAILED \<and> attempts channel_init = 0
   \<and> attempts channel_init + 5 \<le> max_attempts example_config
   \<and> snd (client_run example_config (replicate 5 Failure) channel_init)
       = [RetryAfter 1000, RetryAfter 2000, RetryAfter 4000, RetryAfter 8000, RetryAfter 10000]
   \<and> backoff example_config 2 < max_delay example_config
   \<and> backoff example_config 2 < backoff example_config 3
   \<and> snd (client_run example_config (replicate 6 Failure) channel_init)
       = [RetryAfter 1000, RetryAfter 2000, RetryAfter 4000, RetryAfter 8000, RetryAfter 10000,
          OnError True]
   \<and> state (fst (client_run example_config (replicate 6 Failure) channel_init)) = FAILED"
proof -
  have h0: "0 < base_delay example_config" by (simp add: example_config_def)
  have h1: "state (fst (client_run example_config [Failure, Failure, Success] channel_init)) = SUBSCRIBED"
    by code_simp
  have h2: "state channel_init \<noteq> FAILED" "attempts channel_init = 0"
    by (simp_all add: channel_init_def)
  have h3: "attempts channel_init + 5 \<le> max_attempts example_config"
    by (simp add: channel_init_def example_config_def)
  have h4: "backoff example_config 2 < max_delay example_config"
    by (simp add: backoff_def example_config_def)
  have m: "max_attempts example_config = 5" by (simp add: example_config_def)
  have bs: "map (\<lambda>i. RetryAfter (backoff example_config (attempts channel_init + i))) [0..<5]
            = [RetryAfter 1000, RetryAfter 2000, RetryAfter 4000, RetryAfter 8000, RetryAfter 10000]"
    "map (\<lambda>i. RetryAfter (backoff example_config i)) [0..<5]
            = [RetryAfter 1000, RetryAfter 2000, RetryAfter 4000, RetryAfter 8000, RetryAfter 10000]"
    by code_simp+
  note t = reconnect_backoff[OF h0, of "[Failure, Failure, Success]" channel_init 5 2 channel_init]
  from t h1 have c1: "attempts (fst (client_run example_config [Failure, Failure, Success] channel_init)) = 0"
    by blast
  from t h2(1) h3 have c2: "snd (client_run example_config (replicate 5 Failure) channel_init)
       = [RetryAfter 1000, RetryAfter 2000, RetryAfter 4000, RetryAfter 8000, RetryAfter 10000]"
    unfolding bs(1)[symmetric] by blast
  from t h4 have c3: "backoff example_config 2 < backoff example_config 3"
    by (simp add: eval_nat_numeral)
  from t h2 have "state (fst (client_run example_config (replicate (Suc (max_attempts example_config)) Failure) channel_init)) = FAILED
          \<and> snd (client_run example_config (replicate (Suc (max_attempts example_config)) Failure) channel_init)
              = map (\<lambda>i. RetryAfter (backoff example_config i)) [0..<max_attempts example_config] @ [OnError True]"
    by blast
  then have c4: "snd (client_run example_config (replicate 6 Failure) channel_init)
       = [RetryAfter 1000, RetryAfter 2000, RetryAfter 4000, RetryAfter 8000, RetryAfter 10000,
          OnError True]"
    and c5: "state (fst (client_run example_config (replicate 6 Failure) channel_init)) = FAILED"
    unfolding m bs(2) by (simp_all add: eval_nat_numeral)
  from h0 h1 c1 h2 h3 c2 h4 c3 c4 c5 show ?thesis by (intro conjI) assumption+
qed

subsection \<open>Ordered update queue\<close>

lemma started_links_snoc:
  "started_links (es @ [Started i]) = started_links es @ [i]"
  "started_links (es @ [Settled i b]) = started_links es"
  by (induction es rule: started_links.induct) auto

lemma running_link_snoc:
  "running_link (es @ [Started i]) = Some i"
  "running_link (es @ [Settled i b]) = None"
  by (simp_all add: running_link_def)

lemma sequential_snoc_start:
  "sequential es \<Longrightarrow> running_link es = None \<Longrightarrow> sequential (es @ [Started i])"
  by (induction es rule: sequential.induct) (auto simp: running_link_def split: if_splits)

lemma sequential_snoc_settle:
  "sequential es \<Longrightarrow> running_link es = Some i \<Longrightarrow> sequential (es @ [Settled i b])"
  by (induction es rule: sequential.induct)
     (auto simp: running_link_def split: if_splits queue_event.splits)

lemma queue_inv_init: "queue_inv 0 queue_init"
  by (simp add: queue_inv_def queue_init_def running_link_def MAX_QUEUE_SIZE_def)

lemma queue_inv_warnings: "queue_inv k (q\<lparr>console_warnings := w\<rparr>) = queue_inv k q"
  by (simp add: queue_inv_def)

lemma queue_inv_enqueue:
  assumes "queue_inv k q"
  shows "queue_inv k (queueCacheUpdate p q)"
proof (cases "cacheUpdateQueueSize q \<ge> MAX_QUEUE_SIZE")
  case True
  then show ?thesis using assms by (simp add: queueCacheUpdate_def queue_inv_warnings)
next
  case False
  let ?n = "next_link q"
  from assms have k: "k \<le> ?n" by (simp add: queue_inv_def)
  from assms have rl: "running_link (queue_trace q) =
          (if k < ?n \<and> phase_of q k = Running then Some k else None)"
    by (simp add: queue_inv_def)
  have "running_link (queue_trace q) =
          (if k < Suc ?n \<and> ((phase_of q)(?n := Waiting)) k = Running then Some k else None)"
    using rl k by auto
  moreover have "\<forall>i \<in> set (started_links (queue_trace q)).
                   i < Suc ?n \<and> ((phase_of q)(?n := Waiting)) i \<noteq> Waiting"
    using assms by (auto simp: queue_inv_def)
  moreover have "\<forall>i < Suc ?n. ((chained_to q)(?n := cacheUpdateQueueRef q)) i
                   = (if i = 0 then None else Some (i - 1))"
    using assms by (auto simp: queue_inv_def less_Suc_eq)
  moreover have "k < Suc ?n \<longrightarrow> ((phase_of q)(?n := Waiting)) k \<noteq> Done"
    using assms by (auto simp: queue_inv_def)
  moreover have "\<forall>i. k < i \<and> i < Suc ?n \<longrightarrow> ((phase_of q)(?n := Waiting)) i = Waiting"
    using assms by (auto simp: queue_inv_def)
  moreover have "\<forall>i < k. ((phase_of q)(?n := Waiting)) i = Done"
    using assms k by (auto simp: queue_inv_def)
  moreover have "cacheUpdateQueueSize q + 1 = int (Suc ?n - k)"
    using assms k by (auto simp: queue_inv_def)
  ultimately show ?thesis
    using False assms k
    by (simp add: queueCacheUpdate_def queue_inv_def)
qed

lemma queue_inv_first_open:
  assumes "queue_inv k q" "i < next_link q" "phase_of q i \<noteq> Done"
    "settled q (chained_to q i) \<or> phase_of q i = Running"
  shows "i = k"
proof (rule ccontr)
  assume ne: "i \<noteq> k"
  from assms(1,2,3) have "\<not> i < k" by (auto simp: queue_inv_def)
  with ne have gt: "k < i" by simp
  with assms(1,2) have w: "phase_of q i = Waiting" by (simp add: queue_inv_def)
  from gt have i0: "i \<noteq> 0" by simp
  with assms(1,2) have "chained_to q i = Some (i - 1)" by (simp add: queue_inv_def)
  with assms(4) w have d: "phase_of q (i - 1) = Done" by (simp add: settled_def)
  from gt have "k = i - 1 \<or> k < i - 1" by auto
  then show False
  proof
    assume "k = i - 1"
    with assms(1,2) d gt show False by (auto simp: queue_inv_def)
  next
    assume "k < i - 1"
    with assms(1,2) have "phase_of q (i - 1) = Waiting" by (simp add: queue_inv_def)
    with d show False by simp
  qed
qed

lemma queue_inv_begin:
  assumes "queue_inv k q" "then_callback i isActive q = Some q'"
  shows "\<exists>k'. queue_inv k' q'"
proof -
  from assms(2) have en: "i < next_link q" "phase_of q i = Waiting" "settled q (chained_to q i)"
    by (auto simp: then_callback_def split: if_splits)
  from queue_inv_first_open[OF assms(1) en(1)] en have ik: "i = k" by simp
  from assms(1) en ik have rl: "running_link (queue_trace q) = None"
    by (simp add: queue_inv_def)
  from assms(1) have st: "\<forall>j \<in> set (started_links (queue_trace q)). j < k"
  proof -
    { fix j assume j: "j \<in> set (started_links (queue_trace q))"
      with assms(1) have a: "j < next_link q" "phase_of q j \<noteq> Waiting" by (auto simp: queue_inv_def)
      have "j < k"
      proof (rule ccontr)
        assume "\<not> j < k"
        then have "j = k \<or> k < j" by auto
        with a assms(1) en ik show False by (auto simp: queue_inv_def)
      qed }
    then show ?thesis by blast
  qed
  show ?thesis
  proof (cases isActive)
    case True
    with assms(2) en have q': "q' = q\<lparr>phase_of := (phase_of q)(i := Running),
                  queue_trace := queue_trace q @ [Started i]\<rparr>"
      by (simp add: then_callback_def)
    have "queue_inv k q'"
      using assms(1) en ik rl st
      by (auto simp: q' queue_inv_def started_links_snoc running_link_snoc
            sequential_snoc_start sorted_wrt_append)
    then show ?thesis ..
  next
    case False
    with assms(2) en have q': "q' = q\<lparr>phase_of := (phase_of q)(i := Done),
                  cacheUpdateQueueSize := cacheUpdateQueueSize q - 1\<rparr>"
      by (simp add: then_callback_def)
    have "int (next_link q - k) - 1 = int (next_link q - Suc k)"
      using en ik by auto
    then have "queue_inv (Suc k) q'"
      using assms(1) en ik rl
      by (auto simp: q' queue_inv_def less_Suc_eq)
    then show ?thesis ..
  qed
qed

lemma queue_inv_finish:
  assumes "queue_inv k q" "processor_settles i fulfilled q = Some q'"
  shows "\<exists>k'. queue_inv k' q'"
proof -
  from assms(2) have en: "i < next_link q" "phase_of q i = Running"
    by (auto simp: processor_settles_def split: if_splits)
  from queue_inv_first_open[OF assms(1) en(1)] en have ik: "i = k" by simp
  from assms(1) en ik have rl: "running_link (queue_trace q) = Some k"
    by (simp add: queue_inv_def)
  from assms(2) en have q': "q' = q\<lparr>phase_of := (phase_of q)(i := Done),
                queue_trace := queue_trace q @ [Settled i fulfilled],
                console_warnings :=
                  (if fulfilled then console_warnings q
                   else console_warnings q @ [''Cache update failed:'']),
                cacheUpdateQueueSize := cacheUpdateQueueSize q - 1\<rparr>"
    by (simp add: processor_settles_def)
  have "int (next_link q - k) - 1 = int (next_link q - Suc k)"
    using en ik by auto
  then have "queue_inv (Suc k) q'"
    using assms(1) en ik rl
    by (auto simp: q' queue_inv_def less_Suc_eq started_links_snoc running_link_snoc
          sequential_snoc_settle)
  then show ?thesis ..
qed

lemma queue_inv_step:
  "queue_inv k q \<Longrightarrow> queue_step a q = Some q' \<Longrightarrow> \<exists>k'. queue_inv k' q'"
  by (cases a) (auto intro: queue_inv_enqueue queue_inv_begin queue_inv_finish)

lemma queue_inv_run:
  "queue_inv k q \<Longrightarrow> queue_run acts q = Some q' \<Longrightarrow> \<exists>k'. queue_inv k' q'"
proof (induction acts arbitrary: k q)
  case Nil
  then show ?case by auto
next
  case (Cons a acts)
  from Cons.prems(2) obtain q1 where s: "queue_step a q = Some q1" and r: "queue_run acts q1 = Some q'"
    by (auto split: option.splits)
  from queue_inv_step[OF Cons.prems(1) s] obtain k1 where "queue_inv k1 q1" ..
  from Cons.IH[OF this r] show ?case .
qed

lemma strictly_sorted_below_subseq:
  assumes "sorted_wrt (<) xs" "\<forall>x \<in> set xs. x < n"
  shows "subseq xs [0..<n]"
proof -
  let ?ys = "filter (\<lambda>i. i \<in> set xs) [0..<n]"
  have "sorted ?ys" "distinct ?ys" by (simp_all add: sorted_wrt_filter)
  moreover have "set ?ys = set xs" using assms(2) by auto
  moreover have "sorted xs" "distinct xs" using assms(1) by (simp_all add: strict_sorted_iff)
  ultimately have "xs = ?ys" by (metis sorted_distinct_set_unique)
  then show ?thesis by (metis subseq_filter_left)
qed

lemma processors_after_step:
  assumes "queue_step a q = Some q'"
  shows "map (processor_of q') [0..<next_link q'] =
           map (processor_of q) [0..<next_link q]
           @ (case a of
                Enqueue p \<Rightarrow> if cacheUpdateQueueSize q \<ge> MAX_QUEUE_SIZE then [] else [p]
              | _ \<Rightarrow> [])"
proof (cases a)
  case (Enqueue p)
  with assms show ?thesis by (auto simp: queueCacheUpdate_def)
next
  case (Begin i b)
  with assms show ?thesis by (auto simp: then_callback_def split: if_splits)
next
  case (Finish i b)
  with assms show ?thesis by (auto simp: processor_settles_def split: if_splits)
qed

lemma processors_after_run:
  "queue_run acts q = Some q' \<Longrightarrow>
     map (processor_of q') [0..<next_link q'] = map (processor_of q) [0..<next_link q] @ accepted acts q"
proof (induction acts arbitrary: q)
  case Nil
  then show ?case by simp
next
  case (Cons a acts)
  from Cons.prems obtain q1 where s: "queue_step a q = Some q1" and r: "queue_run acts q1 = Some q'"
    by (auto split: option.splits)
  from Cons.IH[OF r] processors_after_step[OF s] s show ?case by simp
qed

text \<open>
  Claim C1. After any sequence of \<open>queueCacheUpdate\<close> calls, callback runs and processor
  settlements that can happen from the empty queue: the links number the accepted calls
  in the order of the calls; the processors that were started were started in that order;
  the trace is sequential, so a processor starts only after the one started before it has
  settled, fulfilled or rejected; at most one link is running; a link that has left
  \<open>Waiting\<close> has only \<open>Done\<close> links before it; and the first waiting link can always start
  once all links before it are \<open>Done\<close>, whatever their processors settled with.
\<close>

theorem queue_runs_processors_in_order:
  assumes "queue_run acts queue_init = Some q"
  shows "map (processor_of q) [0..<next_link q] = accepted acts queue_init
       \<and> sorted_wrt (<) (started_links (queue_trace q))
       \<and> subseq (map (processor_of q) (started_links (queue_trace q))) (accepted acts queue_init)
       \<and> sequential (queue_trace q)
       \<and> (\<forall>i j. i < next_link q \<and> j < next_link q \<and> phase_of q i = Running \<and> phase_of q j = Running
               \<longrightarrow> i = j)
       \<and> (\<forall>i j. i < next_link q \<and> j < i \<and> phase_of q i \<noteq> Waiting \<longrightarrow> phase_of q j = Done)
       \<and> (\<forall>i b. i < next_link q \<and> phase_of q i = Waiting \<and> (\<forall>j < i. phase_of q j = Done)
               \<longrightarrow> then_callback i b q \<noteq> None)"
proof -
  from queue_inv_run[OF queue_inv_init assms] obtain k where inv: "queue_inv k q" ..
  have procs: "map (processor_of q) [0..<next_link q] = accepted acts queue_init"
    using processors_after_run[OF assms] by (simp add: queue_init_def)
  from inv have so: "sorted_wrt (<) (started_links (queue_trace q))"
    and below: "\<forall>i \<in> set (started_links (queue_trace q)). i < next_link q"
    and seq: "sequential (queue_trace q)"
    by (auto simp: queue_inv_def)
  from strictly_sorted_below_subseq[OF so below]
  have "subseq (map (processor_of q) (started_links (queue_trace q)))
               (map (processor_of q) [0..<next_link q])"
    by (rule subseq_map)
  then have sub: "subseq (map (processor_of q) (started_links (queue_trace q))) (accepted acts queue_init)"
    using procs by simp
  have one: "i = j" if "i < next_link q" "j < next_link q" "phase_of q i = Running" "phase_of q j = Running"
    for i j
    using queue_inv_first_open[OF inv that(1)] queue_inv_first_open[OF inv that(2)] that by simp
  have pre: "phase_of q j = Done" if "i < next_link q" "j < i" "phase_of q i \<noteq> Waiting" for i j
  proof -
    from inv that(1,3) have "\<not> k < i" by (auto simp: queue_inv_def)
    with that(2) have "j < k" by simp
    with inv show ?thesis by (simp add: queue_inv_def)
  qed
  have live: "then_callback i b q \<noteq> None"
    if "i < next_link q" "phase_of q i = Waiting" "\<forall>j < i. phase_of q j = Done" for i b
  proof -
    from inv that(1) have "chained_to q i = (if i = 0 then None else Some (i - 1))"
      by (simp add: queue_inv_def)
    with that(3) have "settled q (chained_to q i)" by (auto simp: settled_def)
    with that(1,2) show ?thesis by (simp add: then_callback_def)
  qed
  from procs so sub seq one pre live show ?thesis by blast
qed

theorem queue_runs_processors_in_order_witness:
  "\<exists>q. queue_run [Enqueue 7, Enqueue 8, Begin 0 True, Enqueue 9, Finish 0 False,
                   Begin 1 False, Begin 2 True] queue_init = Some q
       \<and> queue_trace q = [Started 0, Settled 0 False, Started 2]
       \<and> map (processor_of q) [0..<next_link q] = [7, 8, 9]
       \<and> subseq (map (processor_of q) (started_links (queue_trace q))) [7, 8, 9]
       \<and> sequential (queue_trace q)"
proof -
  let ?acts = "[Enqueue 7, Enqueue 8, Begin 0 True, Enqueue 9, Finish 0 False,
                Begin 1 False, Begin 2 True]"
  have "map_option queue_trace (queue_run ?acts queue_init)
          = Some [Started 0, Settled 0 False, Started 2]"
    by code_simp
  then obtain q where r: "queue_run ?acts queue_init = Some q"
    and t: "queue_trace q = [Started 0, Settled 0 False, Started 2]" by auto
  have acc: "accepted ?acts queue_init = [7, 8, 9]" by code_simp
  from queue_runs_processors_in_order[OF r]
  have "map (processor_of q) [0..<next_link q] = [7, 8, 9]"
    and "subseq (map (processor_of q) (started_links (queue_trace q))) [7, 8, 9]"
    and "sequential (queue_trace q)"
    unfolding acc by simp_all
  with r t show ?thesis by (intro exI[of _ q] conjI) (rule r t | assumption)+
qed


text \<open>
  Claim C2. When the tracked size equals \<open>MAX_QUEUE_SIZE\<close>, \<open>queueCacheUpdate\<close> returns with
  the queue as it was but for one more warning: no link is created for the processor, the
  reference and the size are unchanged. The call is a total function of the state: it has
  no path that throws. In every state that can be reached, the tracked size is the number
  of links that are not \<open>Done\<close> (queued or in flight) and is at most \<open>MAX_QUEUE_SIZE\<close>.
\<close>

theorem queue_full_rejects_enqueue:
  "(cacheUpdateQueueSize q = MAX_QUEUE_SIZE \<longrightarrow>
      queueCacheUpdate p q =
        q\<lparr>console_warnings := console_warnings q @ [''Cache update queue full, dropping update'']\<rparr>
    \<and> queue_step (Enqueue p) q = Some (queueCacheUpdate p q)
    \<and> next_link (queueCacheUpdate p q) = next_link q
    \<and> cacheUpdateQueueRef (queueCacheUpdate p q) = cacheUpdateQueueRef q
    \<and> cacheUpdateQueueSize (queueCacheUpdate p q) = cacheUpdateQueueSize q)
   \<and> (queue_run acts queue_init = Some q \<longrightarrow>
      cacheUpdateQueueSize q = int (card {i. i < next_link q \<and> phase_of q i \<noteq> Done})
    \<and> cacheUpdateQueueSize q \<le> MAX_QUEUE_SIZE)"
proof -
  have full: "queueCacheUpdate p q =
        q\<lparr>console_warnings := console_warnings q @ [''Cache update queue full, dropping update'']\<rparr>
    \<and> queue_step (Enqueue p) q = Some (queueCacheUpdate p q)
    \<and> next_link (queueCacheUpdate p q) = next_link q
    \<and> cacheUpdateQueueRef (queueCacheUpdate p q) = cacheUpdateQueueRef q
    \<and> cacheUpdateQueueSize (queueCacheUpdate p q) = cacheUpdateQueueSize q"
    if s: "cacheUpdateQueueSize q = MAX_QUEUE_SIZE"
  proof -
    from s have ge: "cacheUpdateQueueSize q \<ge> MAX_QUEUE_SIZE" by simp
    have eq: "queueCacheUpdate p q =
        q\<lparr>console_warnings := console_warnings q @ [''Cache update queue full, dropping update'']\<rparr>"
      unfolding queueCacheUpdate_def using ge by (simp only: if_True)
    have "next_link (queueCacheUpdate p q) = next_link q"
      and "cacheUpdateQueueRef (queueCacheUpdate p q) = cacheUpdateQueueRef q"
      and "cacheUpdateQueueSize (queueCacheUpdate p q) = cacheUpdateQueueSize q"
      unfolding eq by simp_all
    moreover have "queue_step (Enqueue p) q = Some (queueCacheUpdate p q)" by simp
    ultimately show ?thesis using eq by blast
  qed
  have reach: "cacheUpdateQueueSize q = int (card {i. i < next_link q \<and> phase_of q i \<noteq> Done})
    \<and> cacheUpdateQueueSize q \<le> MAX_QUEUE_SIZE"
    if r: "queue_run acts queue_init = Some q"
  proof -
    from queue_inv_run[OF queue_inv_init r] obtain k where inv: "queue_inv k q" ..
    from inv have k: "k \<le> next_link q" and d: "\<forall>i < k. phase_of q i = Done"
      and w: "\<forall>i. k < i \<and> i < next_link q \<longrightarrow> phase_of q i = Waiting"
      and o: "k < next_link q \<longrightarrow> phase_of q k \<noteq> Done"
      and sz: "cacheUpdateQueueSize q = int (next_link q - k)"
      and le: "cacheUpdateQueueSize q \<le> MAX_QUEUE_SIZE"
      unfolding queue_inv_def by blast+
    have "(i < next_link q \<and> phase_of q i \<noteq> Done) = (i \<in> {k..<next_link q})" for i
    proof (cases "i < k")
      case True
      with d show ?thesis by simp
    next
      case False
      then have "i = k \<or> k < i" by auto
      then show ?thesis using w o by auto
    qed
    then have "{i. i < next_link q \<and> phase_of q i \<noteq> Done} = {k..<next_link q}"
      by blast
    then have "card {i. i < next_link q \<and> phase_of q i \<noteq> Done} = next_link q - k"
      by simp
    with sz le show ?thesis by simp
  qed
  from full reach show ?thesis by blast
qed



theorem queue_full_rejects_enqueue_witness:
  "\<exists>q. queue_run (replicate 50 (Enqueue 1)) queue_init = Some q
       \<and> cacheUpdateQueueSize q = MAX_QUEUE_SIZE
       \<and> queueCacheUpdate 2 q =
           q\<lparr>console_warnings := console_warnings q @ [''Cache update queue full, dropping update'']\<rparr>
       \<and> cacheUpdateQueueSize (queueCacheUpdate 2 q) = cacheUpdateQueueSize q
       \<and> cacheUpdateQueueSize q = int (card {i. i < next_link q \<and> phase_of q i \<noteq> Done})"
proof -
  have "map_option cacheUpdateQueueSize (queue_run (replicate 50 (Enqueue 1)) queue_init) = Some 50"
    by code_simp
  then obtain q where r: "queue_run (replicate 50 (Enqueue 1)) queue_init = Some q"
    and s: "cacheUpdateQueueSize q = MAX_QUEUE_SIZE" by (auto simp: MAX_QUEUE_SIZE_def)
  from queue_full_rejects_enqueue[of q 2 "replicate 50 (Enqueue 1)"] r s show ?thesis by blast
qed

subsection \<open>Notifications\<close>

lemma map_of_move_to_end:
  assumes "distinct (map fst m)" "map_of m k = Some v"
  shows "map_of (map_delete k m @ [(k, v)]) = map_of m"
proof
  fix x
  show "map_of (map_delete k m @ [(k, v)]) x = map_of m x"
  proof (cases "x = k")
    case True
    have "map_of (map_delete k m) k = None"
      by (auto simp: map_of_eq_None_iff map_delete_def)
    then show ?thesis using True assms(2) by (simp add: map_add_def)
  next
    case False
    have "map_of (map_delete k m) x = map_of m x"
      using False unfolding map_delete_def by (induction m) auto
    then show ?thesis using False by (simp add: map_add_def split: option.splits)
  qed
qed

lemma LRU_get_fst: "fst (LRU_get k L) = map_get k (entries L)"
  by (simp add: LRU_get_def split: option.splits)

lemma LRU_get_lookup:
  assumes "lru_inv L"
  shows "map_get x (entries (snd (LRU_get k L))) = map_get x (entries L)"
proof (cases "map_get k (entries L)")
  case None
  then show ?thesis by (simp add: LRU_get_def)
next
  case (Some v)
  from assms have d: "distinct (map fst (entries L))" by (simp add: lru_inv_def)
  from Some have "map_of (entries L) k = Some v" by (simp add: map_get_def)
  from map_of_move_to_end[OF d this] Some show ?thesis
    by (simp add: LRU_get_hit map_get_def)
qed

lemma LRU_set_lookup:
  assumes "lru_inv L" "1 \<le> maxSize L"
  shows "\<exists>L'. LRU_set k v L = Some L' \<and> lru_inv L' \<and> maxSize L' = maxSize L
              \<and> map_get k (entries L') = Some v"
proof -
  from LRU_set_inv[OF assms(1), of k v] obtain L' where
    s: "LRU_set k v L = Some L'" and i: "lru_inv L'" and m: "maxSize L' = maxSize L" by blast
  from assms(1) have mx: "0 \<le> maxSize L" and d: "distinct (map fst (entries L))"
    by (auto simp: lru_inv_def)
  let ?d = "map_delete k (entries L)"
  let ?j = "Suc (length ?d) - nat (maxSize L)"
  from s have e: "entries L' = drop ?j (?d @ [(k, v)])"
    unfolding LRU_set_entries[OF mx d] by auto
  from assms(2) have "?j \<le> length ?d" by auto
  then have e': "entries L' = drop ?j ?d @ [(k, v)]" using e by simp
  have "k \<notin> fst ` set (drop ?j ?d)"
    using map_has_delete[of k "entries L"] by (auto simp: map_has_def dest: in_set_dropD)
  then have "map_of (drop ?j ?d) k = None" by (simp add: map_of_eq_None_iff)
  then have "map_get k (entries L') = Some v"
    unfolding e' by (simp add: map_get_def map_add_def)
  with s i m show ?thesis by blast
qed

lemma toasts_notify: "toasts (notify permission n) = [n]"
  by (simp add: notify_def)

lemma toasts_append: "toasts (xs @ ys) = toasts xs @ toasts ys"
  by (induction xs rule: toasts.induct) auto







lemma balance_inv_init: "balance_inv BigInt w (hook_refs_init, trackers_init)"
  by (simp add: balance_inv_def hook_refs_init_def trackers_init_def LRU_new_def lru_inv_def
                MAX_TRACKED_WALLETS_def map_get_def)








subsection \<open>Pending transaction notifications\<close>

lemma get_or_new_fst: "fst (get_or_new (toLowerCase w) M) = tracked_set w M"
  by (simp add: get_or_new_def tracked_set_def LRU_get_fst)

lemma get_or_new_keeps:
  assumes "lru_inv M"
  shows "lru_inv (snd (get_or_new k M))"
    and "maxSize (snd (get_or_new k M)) = maxSize M"
    and "tracked_set w (snd (get_or_new k M)) = tracked_set w M"
  using LRU_get_inv[OF assms, of k] LRU_get_lookup[OF assms, of "toLowerCase w" k]
  by (simp_all add: get_or_new_def tracked_set_def)

lemma LRU_set_tracked:
  assumes "lru_inv M" "1 \<le> maxSize M"
  shows "\<exists>M'. LRU_set (toLowerCase w) v M = Some M' \<and> lru_inv M' \<and> maxSize M' = maxSize M
              \<and> tracked_set w M' = v"
  using LRU_set_lookup[OF assms, of "toLowerCase w" v] by (auto simp: tracked_set_def)

lemma set_set_add: "set (set_add x xs) = insert x (set xs)"
  by (auto simp: set_add_def)

lemma proposed_count_simps:
  "proposed_count h [] = 0"
  "proposed_count h (xs @ ys) = proposed_count h xs + proposed_count h ys"
  "proposed_count h (notify permission (TransactionProposed x)) = (if toLowerCase x = h then 1 else 0)"
  "proposed_count h (notify permission (TransactionReady x)) = 0"
  "proposed_count h (notify permission (ApprovalAdded a x)) = 0"
  "proposed_count h (Toast (ApprovalRevoked a x) # es) = proposed_count h es"
  by (simp_all add: proposed_count_def toasts_append toasts_notify)

lemma ready_count_simps:
  "ready_count h [] = 0"
  "ready_count h (xs @ ys) = ready_count h xs + ready_count h ys"
  "ready_count h (notify permission (TransactionReady x)) = (if toLowerCase x = h then 1 else 0)"
  "ready_count h (notify permission (TransactionProposed x)) = 0"
  "ready_count h (notify permission (ApprovalAdded a x)) = 0"
  "ready_count h (Toast (ApprovalRevoked a x) # es) = ready_count h es"
  by (simp_all add: ready_count_def toasts_append toasts_notify)

lemma proposed_branch_summary:
  assumes ok: "trackers_ok g"
  shows "\<exists>g' e. proposed_branch permission w n tx g = Some (g', e) \<and> trackers_ok g'
           \<and> notifiedReadyTxs g' = notifiedReadyTxs g
           \<and> (if n > 0 \<and> toLowerCase (hash tx) \<notin> set (tracked_set w (notifiedProposedTxs g))
               then e = notify permission (TransactionProposed (hash tx))
                  \<and> set (tracked_set w (notifiedProposedTxs g'))
                      = insert (toLowerCase (hash tx)) (set (tracked_set w (notifiedProposedTxs g)))
               else e = [] \<and> tracked_set w (notifiedProposedTxs g') = tracked_set w (notifiedProposedTxs g))"
proof -
  let ?P = "notifiedProposedTxs g"
  let ?got = "get_or_new (toLowerCase w) ?P"
  let ?S = "tracked_set w ?P"
  let ?hl = "toLowerCase (hash tx)"
  from ok have inv: "lru_inv ?P" and cap: "1 \<le> maxSize ?P" by (auto simp: trackers_ok_def)
  note k = get_or_new_keeps(1,2)[OF inv, where k = "toLowerCase w"]
  note k3 = get_or_new_keeps(3)[OF inv, where k = "toLowerCase w" and w = w]
  show ?thesis
  proof (cases "n > 0 \<and> ?hl \<notin> set ?S")
    case True
    from LRU_set_tracked[OF k(1), of w "set_add ?hl ?S"] cap k(2)
    obtain P' where s: "LRU_set (toLowerCase w) (set_add ?hl ?S) (snd ?got) = Some P'"
      and i: "lru_inv P'" and m: "maxSize P' = maxSize ?P" and t: "tracked_set w P' = set_add ?hl ?S"
      by auto
    have "proposed_branch permission w n tx g
            = Some (g\<lparr>notifiedProposedTxs := P'\<rparr>, notify permission (TransactionProposed (hash tx)))"
      using True s by (simp add: proposed_branch_def Let_def get_or_new_fst)
    moreover have "trackers_ok (g\<lparr>notifiedProposedTxs := P'\<rparr>)"
      using ok i m cap by (simp add: trackers_ok_def)
    ultimately show ?thesis using True t by (simp add: set_set_add)
  next
    case False
    then have "proposed_branch permission w n tx g = Some (g\<lparr>notifiedProposedTxs := snd ?got\<rparr>, [])"
      by (auto simp: proposed_branch_def Let_def get_or_new_fst)
    moreover have "trackers_ok (g\<lparr>notifiedProposedTxs := snd ?got\<rparr>)"
      using ok k(1,2) by (simp add: trackers_ok_def)
    ultimately show ?thesis using False k3 by auto
  qed
qed

lemma ready_branch_summary:
  assumes ok: "trackers_ok g"
  shows "\<exists>g' e. ready_branch permission w prevTx tx g = Some (g', e) \<and> trackers_ok g'
           \<and> notifiedProposedTxs g' = notifiedProposedTxs g
           \<and> (if numApprovals prevTx < threshold prevTx \<and> threshold tx \<le> numApprovals tx
                  \<and> toLowerCase (hash tx) \<notin> set (tracked_set w (notifiedReadyTxs g))
               then e = notify permission (TransactionReady (hash tx))
                  \<and> set (tracked_set w (notifiedReadyTxs g'))
                      = insert (toLowerCase (hash tx)) (set (tracked_set w (notifiedReadyTxs g)))
               else e = [] \<and> tracked_set w (notifiedReadyTxs g') = tracked_set w (notifiedReadyTxs g))"
proof -
  let ?R = "notifiedReadyTxs g"
  let ?got = "get_or_new (toLowerCase w) ?R"
  let ?S = "tracked_set w ?R"
  let ?hl = "toLowerCase (hash tx)"
  from ok have inv: "lru_inv ?R" and cap: "1 \<le> maxSize ?R" by (auto simp: trackers_ok_def)
  note k = get_or_new_keeps(1,2)[OF inv, where k = "toLowerCase w"]
  note k3 = get_or_new_keeps(3)[OF inv, where k = "toLowerCase w" and w = w]
  show ?thesis
  proof (cases "numApprovals prevTx < threshold prevTx \<and> threshold tx \<le> numApprovals tx \<and> ?hl \<notin> set ?S")
    case True
    from LRU_set_tracked[OF k(1), of w "set_add ?hl ?S"] cap k(2)
    obtain R' where s: "LRU_set (toLowerCase w) (set_add ?hl ?S) (snd ?got) = Some R'"
      and i: "lru_inv R'" and m: "maxSize R' = maxSize ?R" and t: "tracked_set w R' = set_add ?hl ?S"
      by auto
    have "ready_branch permission w prevTx tx g
            = Some (g\<lparr>notifiedReadyTxs := R'\<rparr>, notify permission (TransactionReady (hash tx)))"
      using True s by (simp add: ready_branch_def Let_def get_or_new_fst not_le)
    moreover have "trackers_ok (g\<lparr>notifiedReadyTxs := R'\<rparr>)"
      using ok i m cap by (simp add: trackers_ok_def)
    ultimately show ?thesis using True t by (simp add: set_set_add)
  next
    case False
    then have "ready_branch permission w prevTx tx g = Some (g\<lparr>notifiedReadyTxs := snd ?got\<rparr>, [])"
      by (auto simp: ready_branch_def Let_def get_or_new_fst not_le)
    moreover have "trackers_ok (g\<lparr>notifiedReadyTxs := snd ?got\<rparr>)"
      using ok k(1,2) by (simp add: trackers_ok_def)
    ultimately show ?thesis using False k3 by auto
  qed
qed

lemma notify_approvers_counts:
  "proposed_count h (snd (notify_approvers permission x as ns)) = 0"
  "ready_count h (snd (notify_approvers permission x as ns)) = 0"
  by (induction permission x as ns rule: notify_approvers.induct)
     (simp_all add: proposed_count_simps ready_count_simps Let_def)

lemma revoked_counts:
  "proposed_count h (map (\<lambda>r. Toast (ApprovalRevoked r x)) rs) = 0"
  "ready_count h (map (\<lambda>r. Toast (ApprovalRevoked r x)) rs) = 0"
  by (induction rs) (simp_all add: proposed_count_simps ready_count_simps)

lemma map_fst_map_set_present: "map_has k m \<Longrightarrow> map fst (map_set k v m) = map fst m"
  by (induction m) (auto simp: map_set_def map_has_def)

lemma length_map_set_present: "map_has k m \<Longrightarrow> length (map_set k v m) = length m"
  by (simp add: map_set_def)

lemma lru_inv_update_in_place:
  assumes "lru_inv A"
  shows "lru_inv (A\<lparr>entries := (if map_has k (entries A) then map_set k v (entries A) else entries A)\<rparr>)"
  using assms by (auto simp: lru_inv_def map_fst_map_set_present length_map_set_present)

lemma approvals_branch_summary:
  assumes ok: "trackers_ok g"
  shows "\<exists>g' e. approvals_branch permission connectedAddress w prevTx tx g = Some (g', e)
           \<and> trackers_ok g'
           \<and> notifiedProposedTxs g' = notifiedProposedTxs g
           \<and> notifiedReadyTxs g' = notifiedReadyTxs g
           \<and> proposed_count h e = 0 \<and> ready_count h e = 0"
proof (cases "truthy connectedAddress")
  case False
  then show ?thesis using ok
    by (simp add: approvals_branch_def proposed_count_simps ready_count_simps)
next
  case True
  let ?A0 = "notifiedApprovals g"
  let ?nw = "toLowerCase w"
  let ?new = "filter (\<lambda>addr. addr \<notin> set (approvers prevTx)
                         \<and> toLowerCase addr \<noteq> toLowerCase connectedAddress) (approvers tx)"
  let ?revoked = "map (\<lambda>revoker. Toast (ApprovalRevoked revoker (hash tx)))
                    (filter (\<lambda>addr. addr \<notin> set (approvers tx)
                         \<and> toLowerCase addr \<noteq> toLowerCase connectedAddress) (approvers prevTx))"
  from ok have inv: "lru_inv ?A0" and cap: "1 \<le> maxSize ?A0" by (auto simp: trackers_ok_def)
  show ?thesis
  proof (cases "?new = []")
    case True
    with \<open>truthy connectedAddress\<close> have
      "approvals_branch permission connectedAddress w prevTx tx g = Some (g, ?revoked)"
      by (simp add: approvals_branch_def Let_def)
    then show ?thesis using ok by (simp add: revoked_counts)
  next
    case False
    let ?got = "LRU_get ?nw ?A0"
    from LRU_get_inv[OF inv, of ?nw] have inv1: "lru_inv (snd ?got)"
      and mx1: "maxSize (snd ?got) = maxSize ?A0" by auto
    have "\<exists>wa A. (case fst ?got of
                     None \<Rightarrow> map_option (Pair []) (LRU_set ?nw [] (snd ?got))
                   | Some walletApprovals \<Rightarrow> Some (walletApprovals, snd ?got)) = Some (wa, A)
                 \<and> lru_inv A \<and> maxSize A = maxSize ?A0"
    proof (cases "fst ?got")
      case None
      from LRU_set_inv[OF inv1, of ?nw "[]"] obtain A where
        "LRU_set ?nw [] (snd ?got) = Some A" "lru_inv A" "maxSize A = maxSize (snd ?got)" by blast
      with None mx1 show ?thesis by auto
    next
      case (Some wa)
      then show ?thesis using inv1 mx1 by auto
    qed
    then obtain wa A where c: "(case fst ?got of
                     None \<Rightarrow> map_option (Pair []) (LRU_set ?nw [] (snd ?got))
                   | Some walletApprovals \<Rightarrow> Some (walletApprovals, snd ?got)) = Some (wa, A)"
      and invA: "lru_inv A" and mxA: "maxSize A = maxSize ?A0" by blast
    let ?ns = "(case map_get (toLowerCase (hash tx)) wa of None \<Rightarrow> [] | Some s \<Rightarrow> s)"
    let ?r = "notify_approvers permission (hash tx) ?new ?ns"
    let ?wa' = "map_set (toLowerCase (hash tx)) (fst ?r) wa"
    let ?A' = "A\<lparr>entries := (if map_has ?nw (entries A)
                             then map_set ?nw ?wa' (entries A) else entries A)\<rparr>"
    have run: "approvals_branch permission connectedAddress w prevTx tx g
                 = Some (g\<lparr>notifiedApprovals := ?A'\<rparr>, snd ?r @ ?revoked)"
      using \<open>truthy connectedAddress\<close> False c
      by (simp add: approvals_branch_def Let_def)
    have "lru_inv ?A'" by (rule lru_inv_update_in_place[OF invA])
    moreover have "maxSize ?A' = maxSize ?A0" using mxA by simp
    ultimately have "trackers_ok (g\<lparr>notifiedApprovals := ?A'\<rparr>)"
      using ok by (simp add: trackers_ok_def)
    with run show ?thesis
      by (simp add: proposed_count_simps ready_count_simps notify_approvers_counts revoked_counts)
  qed
qed

text \<open>What one round of the loop body does, seen from one lower-cased hash \<open>h\<close>.\<close>

lemma process_tx_summary:
  assumes ok: "trackers_ok g"
  shows "\<exists>g' e. process_tx permission connectedAddress w prevTxsMap tx (g, cm, evs)
                   = Some (g', map_set (toLowerCase (hash tx)) tx cm, evs @ e)
           \<and> trackers_ok g'
           \<and> proposed_count h e =
               (if toLowerCase (hash tx) = h \<and> map_get h prevTxsMap = None \<and> 0 < length prevTxsMap
                   \<and> h \<notin> set (tracked_set w (notifiedProposedTxs g)) then 1 else 0)
           \<and> (h \<in> set (tracked_set w (notifiedProposedTxs g')) \<longleftrightarrow>
                h \<in> set (tracked_set w (notifiedProposedTxs g))
                \<or> (toLowerCase (hash tx) = h \<and> map_get h prevTxsMap = None \<and> 0 < length prevTxsMap))
           \<and> ready_count h e =
               (if toLowerCase (hash tx) = h \<and> becomes_ready prevTxsMap tx
                   \<and> h \<notin> set (tracked_set w (notifiedReadyTxs g)) then 1 else 0)
           \<and> (h \<in> set (tracked_set w (notifiedReadyTxs g')) \<longleftrightarrow>
                h \<in> set (tracked_set w (notifiedReadyTxs g))
                \<or> (toLowerCase (hash tx) = h \<and> becomes_ready prevTxsMap tx))"
proof (cases "map_get (toLowerCase (hash tx)) prevTxsMap")
  case None
  from proposed_branch_summary[OF ok, of permission w "length prevTxsMap" tx]
  obtain g' e where b: "proposed_branch permission w (length prevTxsMap) tx g = Some (g', e)"
    and ok': "trackers_ok g'" and r: "notifiedReadyTxs g' = notifiedReadyTxs g"
    and c: "(if 0 < length prevTxsMap \<and> toLowerCase (hash tx) \<notin> set (tracked_set w (notifiedProposedTxs g))
               then e = notify permission (TransactionProposed (hash tx))
                  \<and> set (tracked_set w (notifiedProposedTxs g'))
                      = insert (toLowerCase (hash tx)) (set (tracked_set w (notifiedProposedTxs g)))
               else e = [] \<and> tracked_set w (notifiedProposedTxs g') = tracked_set w (notifiedProposedTxs g))"
    by blast
  have run: "process_tx permission connectedAddress w prevTxsMap tx (g, cm, evs)
               = Some (g', map_set (toLowerCase (hash tx)) tx cm, evs @ e)"
    using None b by (simp add: process_tx_def Let_def)
  have nr: "\<not> becomes_ready prevTxsMap tx" using None by (simp add: becomes_ready_def)
  show ?thesis
  proof (cases "0 < length prevTxsMap \<and> toLowerCase (hash tx) \<notin> set (tracked_set w (notifiedProposedTxs g))")
    case True
    with c have e: "e = notify permission (TransactionProposed (hash tx))"
      and s: "set (tracked_set w (notifiedProposedTxs g'))
                = insert (toLowerCase (hash tx)) (set (tracked_set w (notifiedProposedTxs g)))"
      by auto
    show ?thesis
      using run ok' r nr None True
      by (auto simp: e s proposed_count_simps ready_count_simps)
  next
    case False
    with c have e: "e = []"
      and s: "tracked_set w (notifiedProposedTxs g') = tracked_set w (notifiedProposedTxs g)"
      by auto
    show ?thesis
      using run ok' r nr None False
      by (auto simp: e s proposed_count_simps ready_count_simps)
  qed
next
  case (Some prevTx)
  from ready_branch_summary[OF ok, of permission w prevTx tx]
  obtain g1 e1 where b1: "ready_branch permission w prevTx tx g = Some (g1, e1)"
    and ok1: "trackers_ok g1" and p1: "notifiedProposedTxs g1 = notifiedProposedTxs g"
    and c: "(if numApprovals prevTx < threshold prevTx \<and> threshold tx \<le> numApprovals tx
                  \<and> toLowerCase (hash tx) \<notin> set (tracked_set w (notifiedReadyTxs g))
               then e1 = notify permission (TransactionReady (hash tx))
                  \<and> set (tracked_set w (notifiedReadyTxs g1))
                      = insert (toLowerCase (hash tx)) (set (tracked_set w (notifiedReadyTxs g)))
               else e1 = [] \<and> tracked_set w (notifiedReadyTxs g1) = tracked_set w (notifiedReadyTxs g))"
    by blast
  from approvals_branch_summary[OF ok1, of permission connectedAddress w prevTx tx h]
  obtain g2 e2 where b2: "approvals_branch permission connectedAddress w prevTx tx g1 = Some (g2, e2)"
    and ok2: "trackers_ok g2" and p2: "notifiedProposedTxs g2 = notifiedProposedTxs g1"
    and r2: "notifiedReadyTxs g2 = notifiedReadyTxs g1"
    and z: "proposed_count h e2 = 0" "ready_count h e2 = 0"
    by blast
  have run: "process_tx permission connectedAddress w prevTxsMap tx (g, cm, evs)
               = Some (g2, map_set (toLowerCase (hash tx)) tx cm, evs @ (e1 @ e2))"
    using Some b1 b2 by (simp add: process_tx_def Let_def)
  have br: "becomes_ready prevTxsMap tx
              = (numApprovals prevTx < threshold prevTx \<and> threshold tx \<le> numApprovals tx)"
    using Some by (simp add: becomes_ready_def)
  show ?thesis
  proof (cases "numApprovals prevTx < threshold prevTx \<and> threshold tx \<le> numApprovals tx
                  \<and> toLowerCase (hash tx) \<notin> set (tracked_set w (notifiedReadyTxs g))")
    case True
    with c have e: "e1 = notify permission (TransactionReady (hash tx))"
      and s: "set (tracked_set w (notifiedReadyTxs g1))
                = insert (toLowerCase (hash tx)) (set (tracked_set w (notifiedReadyTxs g)))"
      by auto
    show ?thesis
      apply (rule exI[of _ g2], rule exI[of _ "e1 @ e2"])
      using run ok2 p1 p2 r2 z br Some True
      by (auto simp: e s proposed_count_simps ready_count_simps)
  next
    case False
    with c have e: "e1 = []"
      and s: "tracked_set w (notifiedReadyTxs g1) = tracked_set w (notifiedReadyTxs g)"
      by auto
    show ?thesis
      apply (rule exI[of _ g2], rule exI[of _ "e1 @ e2"])
      using run ok2 p1 p2 r2 z br Some False
      by (auto simp: e s proposed_count_simps ready_count_simps)
  qed
qed

lemma hashes_Cons: "h \<in> hashes (tx # txs) \<longleftrightarrow> toLowerCase (hash tx) = h \<or> h \<in> hashes txs"
  by (auto simp: hashes_def)

lemma once_then_never:
  fixes c1 c2 :: nat
  assumes "c1 = (if a1 \<and> \<not> s0 then 1 else 0)" "s1 \<longleftrightarrow> s0 \<or> a1"
    and "c2 = (if a2 \<and> \<not> s1 then 1 else 0)" "s2 \<longleftrightarrow> s1 \<or> a2"
  shows "c1 + c2 = (if (a1 \<or> a2) \<and> \<not> s0 then 1 else 0)" and "s2 \<longleftrightarrow> s0 \<or> (a1 \<or> a2)"
  using assms by auto

lemma process_all_summary:
  assumes ok: "trackers_ok g"
  shows "\<exists>g' e. process_all permission connectedAddress w prevTxsMap txs (g, cm, evs)
                   = Some (g', foldl (\<lambda>m tx. map_set (toLowerCase (hash tx)) tx m) cm txs, evs @ e)
           \<and> trackers_ok g'
           \<and> proposed_count h e =
               (if (h \<in> hashes txs \<and> map_get h prevTxsMap = None \<and> 0 < length prevTxsMap)
                   \<and> \<not> h \<in> set (tracked_set w (notifiedProposedTxs g)) then 1 else 0)
           \<and> (h \<in> set (tracked_set w (notifiedProposedTxs g')) \<longleftrightarrow>
                h \<in> set (tracked_set w (notifiedProposedTxs g))
                \<or> (h \<in> hashes txs \<and> map_get h prevTxsMap = None \<and> 0 < length prevTxsMap))
           \<and> ready_count h e =
               (if (\<exists>tx \<in> set txs. toLowerCase (hash tx) = h \<and> becomes_ready prevTxsMap tx)
                   \<and> \<not> h \<in> set (tracked_set w (notifiedReadyTxs g)) then 1 else 0)
           \<and> (h \<in> set (tracked_set w (notifiedReadyTxs g')) \<longleftrightarrow>
                h \<in> set (tracked_set w (notifiedReadyTxs g))
                \<or> (\<exists>tx \<in> set txs. toLowerCase (hash tx) = h \<and> becomes_ready prevTxsMap tx))"
  using ok
proof (induction txs arbitrary: g cm evs)
  case Nil
  then show ?case
    by (simp add: proposed_count_simps ready_count_simps hashes_def)
next
  case (Cons tx txs)
  let ?P = "\<lambda>g. h \<in> set (tracked_set w (notifiedProposedTxs g))"
  let ?R = "\<lambda>g. h \<in> set (tracked_set w (notifiedReadyTxs g))"
  let ?a1 = "toLowerCase (hash tx) = h \<and> map_get h prevTxsMap = None \<and> 0 < length prevTxsMap"
  let ?a2 = "h \<in> hashes txs \<and> map_get h prevTxsMap = None \<and> 0 < length prevTxsMap"
  let ?b1 = "toLowerCase (hash tx) = h \<and> becomes_ready prevTxsMap tx"
  let ?b2 = "\<exists>tx \<in> set txs. toLowerCase (hash tx) = h \<and> becomes_ready prevTxsMap tx"
  from process_tx_summary[OF Cons.prems, of permission connectedAddress w prevTxsMap tx cm evs h]
  obtain g1 e1 where
    r1: "process_tx permission connectedAddress w prevTxsMap tx (g, cm, evs)
           = Some (g1, map_set (toLowerCase (hash tx)) tx cm, evs @ e1)"
    and ok1: "trackers_ok g1"
    and pc1: "proposed_count h e1 = (if ?a1 \<and> \<not> ?P g then 1 else 0)"
    and ps1: "?P g1 \<longleftrightarrow> ?P g \<or> ?a1"
    and rc1: "ready_count h e1 = (if ?b1 \<and> \<not> ?R g then 1 else 0)"
    and rs1: "?R g1 \<longleftrightarrow> ?R g \<or> ?b1"
    by (elim exE conjE) (rule that, assumption+, simp, blast, simp, blast)
  from Cons.IH[OF ok1, of "map_set (toLowerCase (hash tx)) tx cm" "evs @ e1"]
  obtain g2 e2 where
    r2: "process_all permission connectedAddress w prevTxsMap txs
           (g1, map_set (toLowerCase (hash tx)) tx cm, evs @ e1)
           = Some (g2, foldl (\<lambda>m tx. map_set (toLowerCase (hash tx)) tx m)
                         (map_set (toLowerCase (hash tx)) tx cm) txs, (evs @ e1) @ e2)"
    and ok2: "trackers_ok g2"
    and pc2: "proposed_count h e2 = (if ?a2 \<and> \<not> ?P g1 then 1 else 0)"
    and ps2: "?P g2 \<longleftrightarrow> ?P g1 \<or> ?a2"
    and rc2: "ready_count h e2 = (if ?b2 \<and> \<not> ?R g1 then 1 else 0)"
    and rs2: "?R g2 \<longleftrightarrow> ?R g1 \<or> ?b2"
    by (elim exE conjE) (rule that, assumption+)
  have run: "process_all permission connectedAddress w prevTxsMap (tx # txs) (g, cm, evs)
               = Some (g2, foldl (\<lambda>m tx. map_set (toLowerCase (hash tx)) tx m) cm (tx # txs),
                       evs @ (e1 @ e2))"
    using r1 r2 by simp
  have a: "(h \<in> hashes (tx # txs) \<and> map_get h prevTxsMap = None \<and> 0 < length prevTxsMap)
             \<longleftrightarrow> ?a1 \<or> ?a2"
    by (auto simp: hashes_Cons)
  have b: "(\<exists>t \<in> set (tx # txs). toLowerCase (hash t) = h \<and> becomes_ready prevTxsMap t)
             \<longleftrightarrow> ?b1 \<or> ?b2"
    by auto
  note p = once_then_never[OF pc1 ps1 pc2 ps2]
  note r = once_then_never[OF rc1 rs1 rc2 rs2]
  have pc: "proposed_count h (e1 @ e2) =
               (if (h \<in> hashes (tx # txs) \<and> map_get h prevTxsMap = None \<and> 0 < length prevTxsMap)
                   \<and> \<not> ?P g then 1 else 0)"
    unfolding a using p(1) by (simp add: proposed_count_simps)
  have ps: "?P g2 \<longleftrightarrow> ?P g
                \<or> (h \<in> hashes (tx # txs) \<and> map_get h prevTxsMap = None \<and> 0 < length prevTxsMap)"
    unfolding a using p(2) .
  have rc: "ready_count h (e1 @ e2) =
               (if (\<exists>t \<in> set (tx # txs). toLowerCase (hash t) = h \<and> becomes_ready prevTxsMap t)
                   \<and> \<not> ?R g then 1 else 0)"
    unfolding b using r(1) by (simp add: ready_count_simps)
  have rs: "?R g2 \<longleftrightarrow> ?R g
                \<or> (\<exists>t \<in> set (tx # txs). toLowerCase (hash t) = h \<and> becomes_ready prevTxsMap t)"
    unfolding b using r(2) .
  show ?case
    apply (rule exI[of _ g2], rule exI[of _ "e1 @ e2"])
    using run ok2 pc ps rc rs by (intro conjI) assumption+
qed

lemma pending_effect_summary:
  assumes ok: "trackers_ok g" and w: "truthy w"
  shows "\<exists>h' g' e. pending_effect permission connectedAddress w (Some txs) (hr, g) = Some (h', g', e)
           \<and> trackers_ok g'
           \<and> map_get w (prevPendingTxs h') = Some (tx_map txs)
           \<and> proposed_count h e =
               (if (h \<in> hashes txs
                    \<and> map_get h (case map_get w (prevPendingTxs hr) of None \<Rightarrow> [] | Some m \<Rightarrow> m) = None
                    \<and> 0 < length (case map_get w (prevPendingTxs hr) of None \<Rightarrow> [] | Some m \<Rightarrow> m))
                   \<and> \<not> h \<in> set (tracked_set w (notifiedProposedTxs g)) then 1 else 0)
           \<and> (h \<in> set (tracked_set w (notifiedProposedTxs g')) \<longleftrightarrow>
                h \<in> set (tracked_set w (notifiedProposedTxs g))
                \<or> (h \<in> hashes txs
                    \<and> map_get h (case map_get w (prevPendingTxs hr) of None \<Rightarrow> [] | Some m \<Rightarrow> m) = None
                    \<and> 0 < length (case map_get w (prevPendingTxs hr) of None \<Rightarrow> [] | Some m \<Rightarrow> m)))
           \<and> ready_count h e =
               (if (\<exists>tx \<in> set txs. toLowerCase (hash tx) = h
                      \<and> becomes_ready (case map_get w (prevPendingTxs hr) of None \<Rightarrow> [] | Some m \<Rightarrow> m) tx)
                   \<and> \<not> h \<in> set (tracked_set w (notifiedReadyTxs g)) then 1 else 0)
           \<and> (h \<in> set (tracked_set w (notifiedReadyTxs g')) \<longleftrightarrow>
                h \<in> set (tracked_set w (notifiedReadyTxs g))
                \<or> (\<exists>tx \<in> set txs. toLowerCase (hash tx) = h
                      \<and> becomes_ready (case map_get w (prevPendingTxs hr) of None \<Rightarrow> [] | Some m \<Rightarrow> m) tx))"
proof -
  let ?prev = "(case map_get w (prevPendingTxs hr) of None \<Rightarrow> [] | Some m \<Rightarrow> m)"
  from process_all_summary[OF ok, of permission connectedAddress w ?prev txs "[]" "[]" h]
  obtain g' e where
    r: "process_all permission connectedAddress w ?prev txs (g, [], [])
          = Some (g', foldl (\<lambda>m tx. map_set (toLowerCase (hash tx)) tx m) [] txs, [] @ e)"
    and rest: "trackers_ok g'"
      "proposed_count h e =
               (if (h \<in> hashes txs \<and> map_get h ?prev = None \<and> 0 < length ?prev)
                   \<and> \<not> h \<in> set (tracked_set w (notifiedProposedTxs g)) then 1 else 0)"
      "(h \<in> set (tracked_set w (notifiedProposedTxs g')) \<longleftrightarrow>
                h \<in> set (tracked_set w (notifiedProposedTxs g))
                \<or> (h \<in> hashes txs \<and> map_get h ?prev = None \<and> 0 < length ?prev))"
      "ready_count h e =
               (if (\<exists>tx \<in> set txs. toLowerCase (hash tx) = h \<and> becomes_ready ?prev tx)
                   \<and> \<not> h \<in> set (tracked_set w (notifiedReadyTxs g)) then 1 else 0)"
      "(h \<in> set (tracked_set w (notifiedReadyTxs g')) \<longleftrightarrow>
                h \<in> set (tracked_set w (notifiedReadyTxs g))
                \<or> (\<exists>tx \<in> set txs. toLowerCase (hash tx) = h \<and> becomes_ready ?prev tx))"
    by (elim exE conjE) (rule that, assumption+)
  let ?h' = "hr\<lparr>prevPendingTxs := map_set w (tx_map txs) (prevPendingTxs hr)\<rparr>"
  have run: "pending_effect permission connectedAddress w (Some txs) (hr, g) = Some (?h', g', e)"
    using w r by (simp add: pending_effect_def Let_def tx_map_def)
  have pm: "map_get w (prevPendingTxs ?h') = Some (tx_map txs)"
    by (simp add: map_get_map_set)
  show ?thesis
    apply (rule exI[of _ ?h'], rule exI[of _ g'], rule exI[of _ e])
    using run rest pm by (intro conjI) assumption+
qed

lemma keys_map_set: "fst ` set (map_set k v m) = insert k (fst ` set m)"
proof (cases "map_has k m")
  case True
  then have "map fst (map_set k v m) = map fst m" by (rule map_fst_map_set_present)
  then have "set (map fst (map_set k v m)) = set (map fst m)" by simp
  moreover from True have "k \<in> fst ` set m" by (simp add: map_has_def)
  ultimately show ?thesis by auto
next
  case False
  then show ?thesis by (simp add: map_set_def)
qed

lemma keys_foldl_map_set:
  "fst ` set (foldl (\<lambda>m tx. map_set (toLowerCase (hash tx)) tx m) m txs)
     = fst ` set m \<union> hashes txs"
proof (induction txs arbitrary: m)
  case Nil
  show ?case by (simp add: hashes_def)
next
  case (Cons tx txs)
  have "hashes (tx # txs) = insert (toLowerCase (hash tx)) (hashes txs)"
    by (simp add: hashes_def)
  then show ?case by (simp add: Cons.IH keys_map_set)
qed

lemma keys_tx_map: "fst ` set (tx_map txs) = hashes txs"
  by (simp add: tx_map_def keys_foldl_map_set)

lemma tx_map_lookup_None: "map_get h (tx_map txs) = None \<longleftrightarrow> h \<notin> hashes txs"
  using keys_tx_map[of txs] by (simp add: map_get_keys)

lemma tx_map_empty: "tx_map txs = [] \<longleftrightarrow> txs = []"
proof
  assume e: "tx_map txs = []"
  show "txs = []"
  proof (rule ccontr)
    assume "txs \<noteq> []"
    then have "hashes txs \<noteq> {}" by (cases txs) (auto simp: hashes_def)
    then have "fst ` set (tx_map txs) \<noteq> {}" by (simp add: keys_tx_map)
    with e show False by simp
  qed
next
  assume "txs = []"
  then show "tx_map txs = []" by (simp add: tx_map_def)
qed

lemma process_all_cold:
  assumes "trackers_ok g"
  shows "\<exists>g'. process_all permission connectedAddress w [] txs (g, cm, evs)
                 = Some (g', foldl (\<lambda>m tx. map_set (toLowerCase (hash tx)) tx m) cm txs, evs)
             \<and> trackers_ok g'
             \<and> tracked_set w (notifiedProposedTxs g') = tracked_set w (notifiedProposedTxs g)
             \<and> notifiedReadyTxs g' = notifiedReadyTxs g"
  using assms
proof (induction txs arbitrary: g cm)
  case Nil
  then show ?case by simp
next
  case (Cons tx txs)
  from proposed_branch_summary[OF Cons.prems, of permission w 0 tx]
  obtain g1 where b: "proposed_branch permission w 0 tx g = Some (g1, [])"
    and ok1: "trackers_ok g1" and r1: "notifiedReadyTxs g1 = notifiedReadyTxs g"
    and t1: "tracked_set w (notifiedProposedTxs g1) = tracked_set w (notifiedProposedTxs g)"
    by auto
  have s: "process_tx permission connectedAddress w [] tx (g, cm, evs)
             = Some (g1, map_set (toLowerCase (hash tx)) tx cm, evs)"
    using b by (simp add: process_tx_def Let_def map_get_def)
  from Cons.IH[OF ok1, of "map_set (toLowerCase (hash tx)) tx cm"] s r1 t1
  show ?case by auto
qed

lemma trackers_ok_init: "trackers_ok trackers_init"
  by (simp add: trackers_ok_def trackers_init_def lru_inv_def LRU_new_def MAX_TRACKED_WALLETS_def)

lemma pending_run_last:
  assumes "trackers_ok g" and "truthy w"
    and "map_get w (prevPendingTxs hr) = Some (tx_map before)"
  shows "\<exists>h' g' e. pending_run permission connectedAddress w observations (hr, g) = Some (h', g', e)
           \<and> trackers_ok g'
           \<and> map_get w (prevPendingTxs h') = Some (tx_map (last (before # observations)))"
  using assms(1,3)
proof (induction observations arbitrary: hr g before)
  case Nil
  then show ?case by simp
next
  case (Cons txs rest)
  from pending_effect_summary[OF Cons.prems(1) assms(2), of permission connectedAddress txs hr "[]"]
  obtain h1 g1 e1 where
    r1: "pending_effect permission connectedAddress w (Some txs) (hr, g) = Some (h1, g1, e1)"
    and ok1: "trackers_ok g1"
    and p1: "map_get w (prevPendingTxs h1) = Some (tx_map txs)"
    by (elim exE conjE) (rule that, assumption+)
  from Cons.IH[OF ok1 p1]
  obtain h2 g2 e2 where
    r2: "pending_run permission connectedAddress w rest (h1, g1) = Some (h2, g2, e2)"
    and ok2: "trackers_ok g2"
    and p2: "map_get w (prevPendingTxs h2) = Some (tx_map (last (txs # rest)))"
    by blast
  have run: "pending_run permission connectedAddress w (txs # rest) (hr, g) = Some (h2, g2, e1 @ e2)"
    using r1 r2 by simp
  have l: "last (before # txs # rest) = last (txs # rest)" by simp
  show ?case
    apply (rule exI[of _ h2], rule exI[of _ g2], rule exI[of _ "e1 @ e2"])
    unfolding l using run ok2 p2 by (intro conjI) assumption+
qed

text \<open>
  Claim C7, as the code has it. On the first observation of a wallet (the instance holds
  no previous map for it) the effect posts no notification at all, whatever the \<open>N\<close>
  pending transactions are. After any further observations, a transaction of the next
  observation that was not in the observation immediately before it gets exactly one
  new-transaction toast when that observation held at least one transaction and the hash
  is not yet recorded in \<open>notifiedProposedTxs\<close> for the wallet, and none otherwise: the
  effect notifies only if the previous map was not empty and the hash was not recorded.
\<close>

theorem cold_start_then_new_transaction:
  assumes "trackers_ok g" and "truthy w" and "map_get w (prevPendingTxs hr) = None"
  shows "\<exists>h1 g1.
           pending_effect permission connectedAddress w (Some first) (hr, g) = Some (h1, g1, [])
         \<and> (\<forall>later. \<exists>h2 g2 e2.
                pending_run permission connectedAddress w later (h1, g1) = Some (h2, g2, e2)
              \<and> (\<forall>cur tx. tx \<in> set cur \<and> toLowerCase (hash tx) \<notin> hashes (last (first # later)) \<longrightarrow>
                   (\<exists>h3 g3 e. pending_effect permission connectedAddress w (Some cur) (h2, g2)
                                 = Some (h3, g3, e)
                      \<and> proposed_count (toLowerCase (hash tx)) e =
                          (if last (first # later) \<noteq> []
                              \<and> toLowerCase (hash tx) \<notin> set (tracked_set w (notifiedProposedTxs g2))
                           then 1 else 0))))"
proof -
  from process_all_cold[OF assms(1), of permission connectedAddress w first "[]" "[]"]
  obtain g1 where
    r: "process_all permission connectedAddress w [] first (g, [], [])
          = Some (g1, foldl (\<lambda>m tx. map_set (toLowerCase (hash tx)) tx m) [] first, [])"
    and ok1: "trackers_ok g1"
    by blast
  let ?h1 = "hr\<lparr>prevPendingTxs := map_set w (tx_map first) (prevPendingTxs hr)\<rparr>"
  have cold: "pending_effect permission connectedAddress w (Some first) (hr, g) = Some (?h1, g1, [])"
    using assms(2,3) r by (simp add: pending_effect_def Let_def tx_map_def)
  have prev1: "map_get w (prevPendingTxs ?h1) = Some (tx_map first)"
    by (simp add: map_get_map_set)
  have after: "\<exists>h2 g2 e2.
                pending_run permission connectedAddress w later (?h1, g1) = Some (h2, g2, e2)
              \<and> (\<forall>cur tx. tx \<in> set cur \<and> toLowerCase (hash tx) \<notin> hashes (last (first # later)) \<longrightarrow>
                   (\<exists>h3 g3 e. pending_effect permission connectedAddress w (Some cur) (h2, g2)
                                 = Some (h3, g3, e)
                      \<and> proposed_count (toLowerCase (hash tx)) e =
                          (if last (first # later) \<noteq> []
                              \<and> toLowerCase (hash tx) \<notin> set (tracked_set w (notifiedProposedTxs g2))
                           then 1 else 0)))" for later
  proof -
    let ?before = "last (first # later)"
    from pending_run_last[OF ok1 assms(2) prev1, of permission connectedAddress later]
    obtain h2 g2 e2 where
      run: "pending_run permission connectedAddress w later (?h1, g1) = Some (h2, g2, e2)"
      and ok2: "trackers_ok g2"
      and prev2: "map_get w (prevPendingTxs h2) = Some (tx_map ?before)"
      by blast
    have prev2': "(case map_get w (prevPendingTxs h2) of None \<Rightarrow> [] | Some m \<Rightarrow> m) = tx_map ?before"
      by (simp add: prev2)
    have next_obs: "\<exists>h3 g3 e. pending_effect permission connectedAddress w (Some cur) (h2, g2)
                                 = Some (h3, g3, e)
                      \<and> proposed_count (toLowerCase (hash tx)) e =
                          (if ?before \<noteq> []
                              \<and> toLowerCase (hash tx) \<notin> set (tracked_set w (notifiedProposedTxs g2))
                           then 1 else 0)"
      if a: "tx \<in> set cur \<and> toLowerCase (hash tx) \<notin> hashes ?before" for cur tx
    proof -
      let ?hl = "toLowerCase (hash tx)"
      from pending_effect_summary[OF ok2 assms(2), of permission connectedAddress cur h2 ?hl]
      obtain h3 g3 e where
        s: "pending_effect permission connectedAddress w (Some cur) (h2, g2) = Some (h3, g3, e)"
        and c: "proposed_count ?hl e =
                 (if (?hl \<in> hashes cur
                      \<and> map_get ?hl (case map_get w (prevPendingTxs h2) of None \<Rightarrow> [] | Some m \<Rightarrow> m) = None
                      \<and> 0 < length (case map_get w (prevPendingTxs h2) of None \<Rightarrow> [] | Some m \<Rightarrow> m))
                     \<and> \<not> ?hl \<in> set (tracked_set w (notifiedProposedTxs g2)) then 1 else 0)"
        by (elim exE conjE) (rule that, assumption+)
      from a have in_cur: "?hl \<in> hashes cur" by (auto simp: hashes_def)
      have ne: "0 < length (tx_map ?before) \<longleftrightarrow> ?before \<noteq> []"
        using tx_map_empty[of ?before] by auto
      from c a in_cur have "proposed_count ?hl e =
                          (if ?before \<noteq> []
                              \<and> ?hl \<notin> set (tracked_set w (notifiedProposedTxs g2))
                           then 1 else 0)"
        unfolding prev2' ne by (simp add: tx_map_lookup_None)
      with s show ?thesis by blast
    qed
    show ?thesis
      apply (rule exI[of _ h2], rule exI[of _ g2], rule exI[of _ e2])
      using run next_obs by blast
  qed
  show ?thesis
    apply (rule exI[of _ ?h1], rule exI[of _ g1])
    using cold after by blast
qed

lemma witness_run_state:
  "(case pending_run True ''0xme'' ''0xW'' [[pending_one_of_two]]
           (hook_refs_init\<lparr>prevPendingTxs := [(''0xW'', [])]\<rparr>, trackers_init) of
      None \<Rightarrow> False
    | Some (h2, g2, e2) \<Rightarrow> tracked_set ''0xW'' (notifiedProposedTxs g2) = [])"
  by code_simp

theorem cold_start_then_new_transaction_witness:
  "trackers_ok trackers_init \<and> truthy ''0xW''
   \<and> map_get ''0xW'' (prevPendingTxs hook_refs_init) = None
   \<and> pending_second \<in> set [pending_one_of_two, pending_second]
   \<and> toLowerCase (hash pending_second) \<notin> hashes (last [[], [pending_one_of_two]])
   \<and> last [[], [pending_one_of_two]] \<noteq> []
   \<and> (\<exists>h1 g1 h2 g2 e2 h3 g3 e.
         pending_effect True ''0xme'' ''0xW'' (Some []) (hook_refs_init, trackers_init)
           = Some (h1, g1, [])
       \<and> pending_run True ''0xme'' ''0xW'' [[pending_one_of_two]] (h1, g1) = Some (h2, g2, e2)
       \<and> toLowerCase (hash pending_second) \<notin> set (tracked_set ''0xW'' (notifiedProposedTxs g2))
       \<and> pending_effect True ''0xme'' ''0xW'' (Some [pending_one_of_two, pending_second]) (h2, g2)
           = Some (h3, g3, e)
       \<and> proposed_count ''0xt2'' e = 1)"
proof -
  have lc: "toLowerCase (hash pending_second) = ''0xt2''" by code_simp
  have a: "truthy ''0xW''" by (simp add: truthy_def)
  have b: "map_get ''0xW'' (prevPendingTxs hook_refs_init) = None"
    by (simp add: hook_refs_init_def map_get_def)
  have c: "pending_second \<in> set [pending_one_of_two, pending_second]" by simp
  have d: "toLowerCase (hash pending_second) \<notin> hashes (last [[], [pending_one_of_two]])" by code_simp
  have ne: "last [[], [pending_one_of_two]] \<noteq> []" by simp
  from cold_start_then_new_transaction[OF trackers_ok_init a b, of True "''0xme''" "[]"]
  obtain h1 g1 where
    f: "pending_effect True ''0xme'' ''0xW'' (Some []) (hook_refs_init, trackers_init) = Some (h1, g1, [])"
    and s: "\<forall>later. \<exists>h2 g2 e2.
                pending_run True ''0xme'' ''0xW'' later (h1, g1) = Some (h2, g2, e2)
              \<and> (\<forall>cur tx. tx \<in> set cur \<and> toLowerCase (hash tx) \<notin> hashes (last ([] # later)) \<longrightarrow>
                   (\<exists>h3 g3 e. pending_effect True ''0xme'' ''0xW'' (Some cur) (h2, g2) = Some (h3, g3, e)
                      \<and> proposed_count (toLowerCase (hash tx)) e =
                          (if last ([] # later) \<noteq> []
                              \<and> toLowerCase (hash tx) \<notin> set (tracked_set ''0xW'' (notifiedProposedTxs g2))
                           then 1 else 0)))"
    by blast
  have f': "pending_effect True ''0xme'' ''0xW'' (Some []) (hook_refs_init, trackers_init)
              = Some (hook_refs_init\<lparr>prevPendingTxs := [(''0xW'', [])]\<rparr>, trackers_init, [])"
    by code_simp
  from f f' have h1: "h1 = hook_refs_init\<lparr>prevPendingTxs := [(''0xW'', [])]\<rparr>" and g1: "g1 = trackers_init"
    by simp_all
  from s[rule_format, of "[[pending_one_of_two]]"] obtain h2 g2 e2 where
    run: "pending_run True ''0xme'' ''0xW'' [[pending_one_of_two]] (h1, g1) = Some (h2, g2, e2)"
    and nxt: "\<forall>cur tx. tx \<in> set cur
                \<and> toLowerCase (hash tx) \<notin> hashes (last ([] # [[pending_one_of_two]])) \<longrightarrow>
                   (\<exists>h3 g3 e. pending_effect True ''0xme'' ''0xW'' (Some cur) (h2, g2) = Some (h3, g3, e)
                      \<and> proposed_count (toLowerCase (hash tx)) e =
                          (if last ([] # [[pending_one_of_two]]) \<noteq> []
                              \<and> toLowerCase (hash tx) \<notin> set (tracked_set ''0xW'' (notifiedProposedTxs g2))
                           then 1 else 0))"
    by blast
  from witness_run_state run have fresh: "tracked_set ''0xW'' (notifiedProposedTxs g2) = []"
    unfolding h1 g1 by auto
  then have nr: "toLowerCase (hash pending_second) \<notin> set (tracked_set ''0xW'' (notifiedProposedTxs g2))"
    by simp
  from nxt[rule_format, of pending_second "[pending_one_of_two, pending_second]"] c d
  obtain h3 g3 e where
    eff: "pending_effect True ''0xme'' ''0xW'' (Some [pending_one_of_two, pending_second]) (h2, g2)
            = Some (h3, g3, e)"
    and cnt: "proposed_count (toLowerCase (hash pending_second)) e =
                (if last ([] # [[pending_one_of_two]]) \<noteq> []
                    \<and> toLowerCase (hash pending_second) \<notin> set (tracked_set ''0xW'' (notifiedProposedTxs g2))
                 then 1 else 0)"
    by auto
  from cnt nr have one: "proposed_count ''0xt2'' e = 1" unfolding lc by simp
  have "\<exists>h1 g1 h2 g2 e2 h3 g3 e.
         pending_effect True ''0xme'' ''0xW'' (Some []) (hook_refs_init, trackers_init)
           = Some (h1, g1, [])
       \<and> pending_run True ''0xme'' ''0xW'' [[pending_one_of_two]] (h1, g1) = Some (h2, g2, e2)
       \<and> toLowerCase (hash pending_second) \<notin> set (tracked_set ''0xW'' (notifiedProposedTxs g2))
       \<and> pending_effect True ''0xme'' ''0xW'' (Some [pending_one_of_two, pending_second]) (h2, g2)
           = Some (h3, g3, e)
       \<and> proposed_count ''0xt2'' e = 1"
    apply (rule exI[of _ h1], rule exI[of _ g1], rule exI[of _ h2], rule exI[of _ g2],
           rule exI[of _ e2], rule exI[of _ h3], rule exI[of _ g3], rule exI[of _ e])
    using f run nr eff one by (intro conjI) assumption+
  with trackers_ok_init a b c d ne show ?thesis by (intro conjI) assumption+
qed

lemma proposeTransaction_onSuccess_example:
  "(case proposeTransaction_onSuccess ''0xT2'' ''0xW'' trackers_init of
      None \<Rightarrow> False
    | Some (g, evs) \<Rightarrow>
        tracked_set ''0xW'' (notifiedProposedTxs g) = [''0xt2'']
      \<and> evs = [Toast (ProposalSucceeded ''0xT2'')])"
  by code_simp

theorem new_transaction_not_notified_counterexample:
  "run_events (pending_run True ''0xme'' ''0xW'' [[], [pending_one_of_two]]
                 (hook_refs_init, trackers_init)) = Some []
   \<and> run_events (pending_run True ''0xme'' ''0xW'' [[pending_one_of_two], [], [pending_second]]
                   (hook_refs_init, trackers_init)) = Some []
   \<and> map_get ''0xW'' (prevPendingTxs (fst own_proposal_state)) = Some [(''0xt1'', pending_one_of_two)]
   \<and> run_events (pending_effect True ''0xme'' ''0xW'' (Some [pending_one_of_two, pending_second])
                   own_proposal_state) = Some []"
  unfolding own_proposal_state_def by code_simp

lemma pending_run_ready:
  assumes "trackers_ok g" and "truthy w"
  shows "\<exists>h' g' e. pending_run permission connectedAddress w observations (hr, g) = Some (h', g', e)
           \<and> trackers_ok g'
           \<and> ready_count h e =
               (if crosses (case map_get w (prevPendingTxs hr) of None \<Rightarrow> [] | Some m \<Rightarrow> m)
                     observations h
                   \<and> \<not> h \<in> set (tracked_set w (notifiedReadyTxs g)) then 1 else 0)
           \<and> (h \<in> set (tracked_set w (notifiedReadyTxs g')) \<longleftrightarrow>
                h \<in> set (tracked_set w (notifiedReadyTxs g))
                \<or> crosses (case map_get w (prevPendingTxs hr) of None \<Rightarrow> [] | Some m \<Rightarrow> m)
                     observations h)"
  using assms(1)
proof (induction observations arbitrary: hr g)
  case Nil
  then show ?case by (simp add: ready_count_simps)
next
  case (Cons txs rest)
  let ?prev = "(case map_get w (prevPendingTxs hr) of None \<Rightarrow> [] | Some m \<Rightarrow> m)"
  let ?R = "\<lambda>g. h \<in> set (tracked_set w (notifiedReadyTxs g))"
  let ?b1 = "\<exists>tx \<in> set txs. toLowerCase (hash tx) = h \<and> becomes_ready ?prev tx"
  let ?b2 = "crosses (tx_map txs) rest h"
  from pending_effect_summary[OF Cons.prems assms(2), of permission connectedAddress txs hr h]
  obtain h1 g1 e1 where
    r1: "pending_effect permission connectedAddress w (Some txs) (hr, g) = Some (h1, g1, e1)"
    and ok1: "trackers_ok g1"
    and p1: "map_get w (prevPendingTxs h1) = Some (tx_map txs)"
    and rc1: "ready_count h e1 = (if ?b1 \<and> \<not> ?R g then 1 else 0)"
    and rs1: "?R g1 \<longleftrightarrow> ?R g \<or> ?b1"
    by (elim exE conjE) (rule that, assumption+)
  from Cons.IH[OF ok1, of h1] p1
  obtain h2 g2 e2 where
    r2: "pending_run permission connectedAddress w rest (h1, g1) = Some (h2, g2, e2)"
    and ok2: "trackers_ok g2"
    and rc2: "ready_count h e2 = (if ?b2 \<and> \<not> ?R g1 then 1 else 0)"
    and rs2: "?R g2 \<longleftrightarrow> ?R g1 \<or> ?b2"
    by auto
  have run: "pending_run permission connectedAddress w (txs # rest) (hr, g) = Some (h2, g2, e1 @ e2)"
    using r1 r2 by simp
  note r = once_then_never[OF rc1 rs1 rc2 rs2]
  have c: "crosses ?prev (txs # rest) h \<longleftrightarrow> ?b1 \<or> ?b2" by simp
  have rc: "ready_count h (e1 @ e2) = (if crosses ?prev (txs # rest) h \<and> \<not> ?R g then 1 else 0)"
    unfolding c using r(1) by (simp add: ready_count_simps)
  have rs: "?R g2 \<longleftrightarrow> ?R g \<or> crosses ?prev (txs # rest) h"
    unfolding c using r(2) .
  show ?case
    apply (rule exI[of _ h2], rule exI[of _ g2], rule exI[of _ "e1 @ e2"])
    using run ok2 rc rs by (intro conjI) assumption+
qed

text \<open>
  Claim C8. Let one instance run the effect over any sequence of observations of a
  wallet, from a state in which the transaction \<open>h\<close> is not yet recorded in
  \<open>notifiedReadyTxs\<close> for the wallet. If between two consecutive observations \<open>h\<close> goes from
  below its threshold to at or above it, the whole run posts exactly one ready-to-execute
  toast for \<open>h\<close>, however often the transaction is observed afterwards; otherwise it posts
  none.
\<close>

theorem ready_notification_fires_once:
  assumes "trackers_ok g" and "truthy w"
    and "h \<notin> set (tracked_set w (notifiedReadyTxs g))"
  shows "\<exists>h' g' e. pending_run permission connectedAddress w observations (hr, g) = Some (h', g', e)
           \<and> ready_count h e =
               (if crosses (case map_get w (prevPendingTxs hr) of None \<Rightarrow> [] | Some m \<Rightarrow> m)
                     observations h
                then 1 else 0)"
proof -
  from pending_run_ready[OF assms(1,2), of permission connectedAddress observations hr h]
  obtain h' g' e where
    "pending_run permission connectedAddress w observations (hr, g) = Some (h', g', e)"
    "ready_count h e =
               (if crosses (case map_get w (prevPendingTxs hr) of None \<Rightarrow> [] | Some m \<Rightarrow> m)
                     observations h
                   \<and> \<not> h \<in> set (tracked_set w (notifiedReadyTxs g)) then 1 else 0)"
    by (elim exE conjE) (rule that, assumption+)
  with assms(3) show ?thesis by auto
qed

theorem ready_notification_fires_once_witness:
  "trackers_ok trackers_init \<and> truthy ''0xW''
   \<and> ''0xt1'' \<notin> set (tracked_set ''0xW'' (notifiedReadyTxs trackers_init))
   \<and> crosses [] ready_observations ''0xt1''
   \<and> (\<exists>h' g' e. pending_run True ''0xme'' ''0xW'' ready_observations (hook_refs_init, trackers_init)
                   = Some (h', g', e)
         \<and> ready_count ''0xt1'' e = 1)"
proof -
  have a: "truthy ''0xW''" by (simp add: truthy_def)
  have b: "''0xt1'' \<notin> set (tracked_set ''0xW'' (notifiedReadyTxs trackers_init))"
    by (simp add: tracked_set_def trackers_init_def LRU_new_def map_get_def)
  have p: "(case map_get ''0xW'' (prevPendingTxs hook_refs_init) of None \<Rightarrow> [] | Some m \<Rightarrow> m) = []"
    by (simp add: hook_refs_init_def map_get_def)
  have c: "crosses [] ready_observations ''0xt1''" by code_simp
  from ready_notification_fires_once[OF trackers_ok_init a b, of True "''0xme''" ready_observations hook_refs_init]
  have "\<exists>h' g' e. pending_run True ''0xme'' ''0xW'' ready_observations (hook_refs_init, trackers_init)
                   = Some (h', g', e)
         \<and> ready_count ''0xt1'' e = 1"
    unfolding p using c by simp
  with trackers_ok_init a b c show ?thesis by blast
qed

end
